theory Spec2Isabelle
  imports Main "HOL-Library.Word"
begin

unbundle bit_operations_syntax

section \<open>PD-ECS: a shallow embedding of \<open>ecs.h\<close> and \<open>ecs.c\<close>\<close>

text \<open>
  The registry of \<open>ecs.c\<close> is modelled by explicit state passing: every function that
  takes an \<open>ECS *\<close> takes the registry as a record and returns the updated record next to
  its C return value; a function that takes a \<open>const ECS *\<close> only returns its value.
  The build modelled is the debug build for the desktop target: \<open>ASSERT\<close> is active (no
  \<open>NDEBUG\<close>) and a failed assertion or the exhaustion check of \<open>newEntity\<close> ends in
  \<open>abort()\<close>. An access the C standard leaves undefined (an array index past the declared
  size, a read through a pointer that was never assigned) is the error
  \<open>UndefinedBehaviour\<close>. \<open>malloc\<close> is taken to succeed.
\<close>

subsection \<open>Configuration and scalar types (\<open>ecs.h\<close>)\<close>

text \<open>The defaults of \<open>ecs.h\<close>; with \<open>ECS_MAX_COMPS = 8\<close> the macro
  \<open>ECS_COMPMASK_BYTES\<close> is 1 and \<open>ComponentMask\<close> is \<open>uint8_t\<close>.\<close>

definition ECS_MAX_ENTITIES :: nat where
  "ECS_MAX_ENTITIES = 128"

definition ECS_MAX_COMPS :: nat where
  "ECS_MAX_COMPS = 8"

definition ECS_MAX_SYSTEMS :: nat where
  "ECS_MAX_SYSTEMS = 32"

type_synonym ComponentMask = "8 word"
type_synonym ECSID = "8 word"
type_synonym Index = "16 word"
type_synonym Entity = "32 word"

datatype error = AssertionFailed | Abort | UndefinedBehaviour

text \<open>
  Pointers. A function pointer and a \<open>void *\<close> context are opaque addresses, 0 being
  \<open>NULL\<close>. A pointer into component storage is a block and a byte offset:
  \<open>Ptr b off\<close> is the address \<open>compData[b]->data + off\<close>, inside the block that the
  \<open>b\<close>-th call of \<open>malloc\<close> in \<open>ecsDeclareComponent\<close> returned. Two such pointers are the
  same address exactly when block and offset agree.
\<close>

type_synonym funptr = nat
type_synonym voidptr = nat

datatype ptr = NULL | Ptr nat nat

subsection \<open>Structures (\<open>ecs.c\<close>)\<close>

record EntityData =
  info :: "32 word"
  components :: ComponentMask

text \<open>\<open>ComponentData\<close>: \<open>size\<close>, the name \<open>id[64]\<close> as a C string (the characters before
  the terminating NUL), and the flexible array \<open>data[]\<close> of \<open>ECS_MAX_ENTITIES * size\<close> bytes.\<close>

record ComponentData =
  size_cd :: nat
  id_cd :: string
  data_cd :: "8 word list"

record System =
  id_sys :: ECSID
  mask_sys :: ComponentMask
  func :: funptr
  userData :: voidptr

text \<open>\<open>DECLARE_POOL(EntityData, Entity, ECS_MAX_ENTITIES)\<close>.\<close>

record EntityPool =
  freeCount :: "16 word"
  freeList :: "16 word list"
  data :: "EntityData list"

text \<open>\<open>struct ECS\<close>. An entry of \<open>compData\<close> is \<open>None\<close> while the pointer has never been
  assigned.\<close>

record ECS =
  entities :: EntityPool
  compDataCount :: "8 word"
  compData :: "ComponentData option list"
  nextSystemID :: "8 word"
  systemCount :: "8 word"
  systems :: "System list"

subsection \<open>The entity pool\<close>

definition initEntityPool :: "EntityPool \<Rightarrow> EntityPool" where
  "initEntityPool pool =
     pool\<lparr>freeCount := of_nat ECS_MAX_ENTITIES,
          data := replicate ECS_MAX_ENTITIES \<lparr>info = 0, components = 0\<rparr>,
          freeList := map (\<lambda>i. of_nat (ECS_MAX_ENTITIES - (i + 1))) [0..<ECS_MAX_ENTITIES]\<rparr>"

definition newEntityFromPool :: "EntityPool \<Rightarrow> error + (EntityPool \<times> Index)" where
  "newEntityFromPool pool =
     (if freeCount pool = 0 then Inl AssertionFailed
      else let fc = freeCount pool - 1 in
        if unat fc < length (freeList pool)
        then Inr (pool\<lparr>freeCount := fc\<rparr>, freeList pool ! unat fc)
        else Inl UndefinedBehaviour)"

definition returnEntityToPool :: "EntityPool \<Rightarrow> Index \<Rightarrow> error + EntityPool" where
  "returnEntityToPool pool ix =
     (if \<not> unat (freeCount pool) < ECS_MAX_ENTITIES then Inl AssertionFailed
      else if unat (freeCount pool) < length (freeList pool)
        then Inr (pool\<lparr>freeList := (freeList pool)[unat (freeCount pool) := ix],
                       freeCount := freeCount pool + 1\<rparr>)
        else Inl UndefinedBehaviour)"

subsection \<open>Handle utilities\<close>

text \<open>\<open>generation\<close> returns \<open>uint8_t\<close>: the low 16 bits of \<open>info\<close>, truncated to 8.\<close>

definition generation :: "EntityData \<Rightarrow> 8 word" where
  "generation d = ucast (info d AND 0xffff)"

definition flags :: "EntityData \<Rightarrow> 16 word" where
  "flags d = ucast (drop_bit 16 (info d) AND 0xffff)"

definition kEntityUnused :: "16 word" where
  "kEntityUnused = push_bit 0 1"

definition createHandle :: "Index \<Rightarrow> 8 word \<Rightarrow> Entity" where
  "createHandle index gen = push_bit 16 (ucast gen) OR ucast index"

definition createEntityData :: "8 word \<Rightarrow> EntityData" where
  "createEntityData gen = \<lparr>info = ucast gen, components = 0\<rparr>"

definition entityIndex :: "Entity \<Rightarrow> Index" where
  "entityIndex handle = ucast (handle AND 0xffff)"

definition entityGen :: "Entity \<Rightarrow> 16 word" where
  "entityGen handle = ucast (drop_bit 16 handle AND 0xffff)"

subsection \<open>Registry construction\<close>

text \<open>\<open>newECS\<close> initialises the counters and the entity pool, whose arrays
  \<open>initEntityPool\<close> fills completely. The rest of the block \<open>malloc\<close> returned stays as
  it was: \<open>junk\<close> stands for the indeterminate contents of \<open>systems[ECS_MAX_SYSTEMS]\<close>, and
  none of the \<open>ECS_MAX_COMPS\<close> component pointers has been assigned.\<close>

definition newECS :: "System list \<Rightarrow> ECS" where
  "newECS junk =
     (let ecs = \<lparr>entities = \<lparr>freeCount = of_nat ECS_MAX_ENTITIES, freeList = [], data = []\<rparr>,
                 compDataCount = 0,
                 compData = replicate ECS_MAX_COMPS None,
                 nextSystemID = 0,
                 systemCount = 0,
                 systems = junk\<rparr>
      in ecs\<lparr>entities := initEntityPool (entities ecs)\<rparr>)"

subsection \<open>Entity handling\<close>

definition newEntity :: "ECS \<Rightarrow> error + (ECS \<times> Entity)" where
  "newEntity ecs =
     (if freeCount (entities ecs) = 0 then Inl Abort
      else case newEntityFromPool (entities ecs) of
        Inl e \<Rightarrow> Inl e
      | Inr (pool, ix) \<Rightarrow>
          if unat ix < length (data pool)
          then let gen = generation (data pool ! unat ix) in
            Inr (ecs\<lparr>entities := pool\<lparr>data := (data pool)[unat ix := createEntityData gen]\<rparr>\<rparr>,
                 createHandle ix gen)
          else Inl UndefinedBehaviour)"

definition newEntityWithArchetype :: "ECS \<Rightarrow> ComponentMask \<Rightarrow> error + (ECS \<times> Entity)" where
  "newEntityWithArchetype ecs archetype =
     (case newEntity ecs of
        Inl e \<Rightarrow> Inl e
      | Inr (ecs1, e) \<Rightarrow>
          let d = data (entities ecs1); i = unat (entityIndex e) in
          if i < length d
          then Inr (ecs1\<lparr>entities := (entities ecs1)\<lparr>data := d[i := (d ! i)\<lparr>components := archetype\<rparr>]\<rparr>\<rparr>, e)
          else Inl UndefinedBehaviour)"

text \<open>The comparison \<open>generation(...) == gen\<close> is between a \<open>uint8_t\<close> and a \<open>uint16_t\<close>,
  both promoted to \<open>int\<close>.\<close>

definition isEntityValid :: "ECS \<Rightarrow> Entity \<Rightarrow> error + bool" where
  "isEntityValid ecs entity =
     (let gen = entityGen entity; d = data (entities ecs); i = unat (entityIndex entity) in
      if i < length d then Inr (uint (generation (d ! i)) = uint gen)
      else Inl UndefinedBehaviour)"

text \<open>\<open>gen+1\<close> is computed in \<open>int\<close> and converted to the \<open>uint8_t\<close> parameter of
  \<open>createEntityData\<close>.\<close>

definition destroyEntity :: "ECS \<Rightarrow> Entity \<Rightarrow> error + ECS" where
  "destroyEntity ecs entity =
     (case isEntityValid ecs entity of
        Inl e \<Rightarrow> Inl e
      | Inr valid \<Rightarrow>
          if \<not> valid then Inr ecs
          else let ix = entityIndex entity; gen = entityGen entity;
                   pool = (entities ecs)\<lparr>data := (data (entities ecs))
                            [unat ix := createEntityData (word_of_int (uint gen + 1))]\<rparr>
            in case returnEntityToPool pool ix of
                 Inl e \<Rightarrow> Inl e
               | Inr pool' \<Rightarrow> Inr (ecs\<lparr>entities := pool'\<rparr>))"

subsection \<open>Component handling\<close>

text \<open>The scan of \<open>ecsComponentID\<close>, from index \<open>i\<close>. \<open>strcmp\<close> returning 0 is equality of
  the two C strings. The counter is a \<open>uint8_t\<close> below \<open>compDataCount\<close>, so it never wraps.\<close>

function ecsComponentID_from :: "ECS \<Rightarrow> string \<Rightarrow> nat \<Rightarrow> error + ECSID" where
  "ecsComponentID_from ecs name i =
     (if i < unat (compDataCount ecs)
      then (if i < length (compData ecs)
            then (case compData ecs ! i of
                    None \<Rightarrow> Inl UndefinedBehaviour
                  | Some c \<Rightarrow> if id_cd c = name then Inr (of_nat i)
                             else ecsComponentID_from ecs name (i + 1))
            else Inl UndefinedBehaviour)
      else Inr (of_nat ECS_MAX_COMPS))"
  by pat_completeness auto
termination
  by (relation "measure (\<lambda>(ecs, name, i). unat (compDataCount ecs) - i)") auto

declare ecsComponentID_from.simps [simp del]

definition ecsComponentID :: "ECS \<Rightarrow> string \<Rightarrow> error + ECSID" where
  "ecsComponentID ecs name = ecsComponentID_from ecs name 0"

text \<open>\<open>strcpy\<close> into \<open>id[64]\<close> needs the name and its NUL to fit; a longer name writes past
  the array.\<close>

definition ecsDeclareComponent :: "ECS \<Rightarrow> string \<Rightarrow> nat \<Rightarrow> error + (ECS \<times> ECSID)" where
  "ecsDeclareComponent ecs compID sz =
     (case ecsComponentID ecs compID of
        Inl e \<Rightarrow> Inl e
      | Inr ident \<Rightarrow>
          if ident \<noteq> of_nat ECS_MAX_COMPS then Inr (ecs, ident)
          else if \<not> unat (compDataCount ecs) < ECS_MAX_COMPS then Inl AssertionFailed
          else if \<not> length compID < 64 then Inl UndefinedBehaviour
          else let d = \<lparr>size_cd = sz, id_cd = compID,
                        data_cd = replicate (ECS_MAX_ENTITIES * sz) 0\<rparr>
            in if unat (compDataCount ecs) < length (compData ecs)
               then Inr (ecs\<lparr>compData := (compData ecs)[unat (compDataCount ecs) := Some d],
                             compDataCount := compDataCount ecs + 1\<rparr>,
                         compDataCount ecs)
               else Inl UndefinedBehaviour)"

text \<open>The address \<open>ecs->compData[compID]->data + compID * ecs->compData[compID]->size\<close>.\<close>

definition storageAddress :: "ECS \<Rightarrow> ECSID \<Rightarrow> error + ptr" where
  "storageAddress ecs compID =
     (if unat compID < length (compData ecs)
      then (case compData ecs ! unat compID of
              None \<Rightarrow> Inl UndefinedBehaviour
            | Some c \<Rightarrow> Inr (Ptr (unat compID) (unat compID * size_cd c)))
      else Inl UndefinedBehaviour)"

text \<open>\<open>1 << compID\<close> is an \<open>int\<close>; with \<open>compID < 8\<close> asserted, the bitwise operation and the
  conversion back to the \<open>uint8_t\<close> mask are the operation on 8 bits.\<close>

definition addComponentID :: "ECS \<Rightarrow> Entity \<Rightarrow> ECSID \<Rightarrow> error + (ECS \<times> ptr)" where
  "addComponentID ecs entity compID =
     (if \<not> unat compID < ECS_MAX_COMPS then Inl AssertionFailed
      else case isEntityValid ecs entity of
        Inl e \<Rightarrow> Inl e
      | Inr valid \<Rightarrow>
          if \<not> valid then Inl AssertionFailed
          else let i = unat (entityIndex entity); d = data (entities ecs);
                   ecs' = ecs\<lparr>entities := (entities ecs)\<lparr>data :=
                            d[i := (d ! i)\<lparr>components :=
                                  components (d ! i) OR push_bit (unat compID) 1\<rparr>]\<rparr>\<rparr>
            in case storageAddress ecs' compID of
                 Inl e \<Rightarrow> Inl e
               | Inr p \<Rightarrow> Inr (ecs', p))"

definition getComponentID :: "ECS \<Rightarrow> Entity \<Rightarrow> ECSID \<Rightarrow> error + (ECS \<times> ptr)" where
  "getComponentID ecs entity compID =
     (if \<not> unat compID < ECS_MAX_COMPS then Inl AssertionFailed
      else case isEntityValid ecs entity of
        Inl e \<Rightarrow> Inl e
      | Inr valid \<Rightarrow>
          if \<not> valid then Inl AssertionFailed
          else let i = unat (entityIndex entity); d = data (entities ecs) in
            if components (d ! i) AND push_bit (unat compID) 1 = 0 then Inr (ecs, NULL)
            else case storageAddress ecs compID of
                   Inl e \<Rightarrow> Inl e
                 | Inr p \<Rightarrow> Inr (ecs, p))"

definition removeComponentID :: "ECS \<Rightarrow> Entity \<Rightarrow> ECSID \<Rightarrow> error + ECS" where
  "removeComponentID ecs entity compID =
     (if \<not> unat compID < ECS_MAX_COMPS then Inl AssertionFailed
      else case isEntityValid ecs entity of
        Inl e \<Rightarrow> Inl e
      | Inr valid \<Rightarrow>
          if \<not> valid then Inl AssertionFailed
          else let i = unat (entityIndex entity); d = data (entities ecs) in
            Inr (ecs\<lparr>entities := (entities ecs)\<lparr>data :=
                   d[i := (d ! i)\<lparr>components :=
                         components (d ! i) AND NOT (push_bit (unat compID) 1)\<rparr>]\<rparr>\<rparr>))"

subsection \<open>Systems\<close>

definition newSystem :: "ECS \<Rightarrow> ComponentMask \<Rightarrow> funptr \<Rightarrow> voidptr \<Rightarrow> error + (ECS \<times> ECSID)" where
  "newSystem ecs m it d =
     (if \<not> unat (systemCount ecs) < ECS_MAX_SYSTEMS then Inl AssertionFailed
      else if \<not> it \<noteq> 0 then Inl AssertionFailed
      else if unat (systemCount ecs) < length (systems ecs)
        then Inr (ecs\<lparr>systems := (systems ecs)[unat (systemCount ecs) :=
                          \<lparr>id_sys = nextSystemID ecs, mask_sys = m, func = it, userData = d\<rparr>],
                      systemCount := systemCount ecs + 1,
                      nextSystemID := nextSystemID ecs + 1\<rparr>,
                  0)
        else Inl UndefinedBehaviour)"

text \<open>\<open>findSystem\<close> returns \<open>&ecs->systems[i]\<close> or \<open>NULL\<close>: the index, or \<open>None\<close>.\<close>

function findSystem_from :: "ECS \<Rightarrow> ECSID \<Rightarrow> nat \<Rightarrow> error + nat option" where
  "findSystem_from ecs ident i =
     (if i < unat (systemCount ecs)
      then (if i < length (systems ecs)
            then (if ident = id_sys (systems ecs ! i) then Inr (Some i)
                  else findSystem_from ecs ident (i + 1))
            else Inl UndefinedBehaviour)
      else Inr None)"
  by pat_completeness auto
termination
  by (relation "measure (\<lambda>(ecs, ident, i). unat (systemCount ecs) - i)") auto

declare findSystem_from.simps [simp del]

definition findSystem :: "ECS \<Rightarrow> ECSID \<Rightarrow> error + nat option" where
  "findSystem ecs ident = findSystem_from ecs ident 0"

text \<open>\<open>memmove(dst, src, n)\<close> on the system table, counted in entries: the \<open>n\<close> entries from
  index \<open>src\<close> are copied, as if through a buffer, to index \<open>dst\<close>.\<close>

definition memmove_sys :: "System list \<Rightarrow> nat \<Rightarrow> nat \<Rightarrow> nat \<Rightarrow> System list" where
  "memmove_sys xs dst src n = take dst xs @ take n (drop src xs) @ drop (dst + n) xs"

definition destroySystem :: "ECS \<Rightarrow> ECSID \<Rightarrow> error + ECS" where
  "destroySystem ecs ident =
     (if \<not> 0 < unat (systemCount ecs) then Inl AssertionFailed
      else case findSystem ecs ident of
        Inl e \<Rightarrow> Inl e
      | Inr None \<Rightarrow> Inr ecs
      | Inr (Some sys) \<Rightarrow>
          let begin_sys = sys + 1; end_sys = unat (systemCount ecs) in
          if end_sys \<le> length (systems ecs)
          then Inr (ecs\<lparr>systems := memmove_sys (systems ecs) begin_sys sys (end_sys - begin_sys),
                        systemCount := systemCount ecs - 1\<rparr>)
          else Inl UndefinedBehaviour)"

subsection \<open>Matching and the tick\<close>

text \<open>
  A callback of type \<open>ECSIterator\<close> is host code. It receives the registry, a handle and
  the context pointer, may call back into the registry, and works on state of its own; the
  host's state is the type \<open>'h\<close>. A function pointer is resolved by \<open>code\<close>; a pointer that
  is not the address of a callback (\<open>NULL\<close> among them) cannot be called.
\<close>

type_synonym 'h ECSIterator = "ECS \<Rightarrow> Entity \<Rightarrow> voidptr \<Rightarrow> 'h \<Rightarrow> error + (ECS \<times> 'h)"

definition call_iterator ::
  "(funptr \<Rightarrow> 'h ECSIterator option) \<Rightarrow> funptr \<Rightarrow> 'h ECSIterator" where
  "call_iterator code it ecs e ud w =
     (case code it of None \<Rightarrow> Inl UndefinedBehaviour | Some f \<Rightarrow> f ecs e ud w)"

text \<open>The body of the loop of \<open>matchEntities\<close> over the slot indices still to visit. Each
  iteration reads the registry as the callbacks before it left it.\<close>

fun matchEntities_loop ::
  "(funptr \<Rightarrow> 'h ECSIterator option) \<Rightarrow> ComponentMask \<Rightarrow> funptr \<Rightarrow> voidptr \<Rightarrow>
   nat list \<Rightarrow> ECS \<Rightarrow> 'h \<Rightarrow> error + (ECS \<times> 'h)" where
  "matchEntities_loop code m it ud [] ecs w = Inr (ecs, w)"
| "matchEntities_loop code m it ud (i # ids) ecs w =
     (if i < length (data (entities ecs))
      then let d = data (entities ecs) ! i in
        if flags d AND kEntityUnused \<noteq> 0 then matchEntities_loop code m it ud ids ecs w
        else if components d AND m \<noteq> m then matchEntities_loop code m it ud ids ecs w
        else (case call_iterator code it ecs (createHandle (of_nat i) (generation d)) ud w of
                Inl e \<Rightarrow> Inl e
              | Inr (ecs', w') \<Rightarrow> matchEntities_loop code m it ud ids ecs' w')
      else Inl UndefinedBehaviour)"

definition matchEntities ::
  "(funptr \<Rightarrow> 'h ECSIterator option) \<Rightarrow> ECS \<Rightarrow> ComponentMask \<Rightarrow> funptr \<Rightarrow> voidptr \<Rightarrow>
   'h \<Rightarrow> error + (ECS \<times> 'h)" where
  "matchEntities code ecs m it ud w =
     matchEntities_loop code m it ud [0..<ECS_MAX_ENTITIES] ecs w"

text \<open>The loop of \<open>ecsTick\<close> from system \<open>i\<close>; \<open>systemCount\<close> is read again at every
  iteration. The \<open>uint8_t\<close> counter stays below \<open>systemCount\<close>, so it never wraps.\<close>

function ecsTick_from ::
  "(funptr \<Rightarrow> 'h ECSIterator option) \<Rightarrow> nat \<Rightarrow> ECS \<Rightarrow> 'h \<Rightarrow> error + (ECS \<times> 'h)" where
  "ecsTick_from code i ecs w =
     (if i < unat (systemCount ecs)
      then (if i < length (systems ecs)
            then (case matchEntities code ecs (mask_sys (systems ecs ! i))
                         (func (systems ecs ! i)) (userData (systems ecs ! i)) w of
                    Inl e \<Rightarrow> Inl e
                  | Inr (ecs', w') \<Rightarrow> ecsTick_from code (i + 1) ecs' w')
            else Inl UndefinedBehaviour)
      else Inr (ecs, w))"
  by pat_completeness auto
termination
proof (relation "measure (\<lambda>(code, i, ecs, w). 256 - i)")
  fix code :: "funptr \<Rightarrow> 'h ECSIterator option" and i :: nat and ecs :: ECS and w :: 'h
    and x2 :: "ECS \<times> 'h" and x y
  assume "i < unat (systemCount ecs)"
  moreover have "unat (systemCount ecs) < 256"
    using unsigned_less [of "systemCount ecs", where ?'a = nat] by simp
  ultimately show "((code, i + 1, x, y), code, i, ecs, w)
      \<in> measure (\<lambda>(code, i, ecs, w). 256 - i)"
    by simp
qed simp

declare ecsTick_from.simps [simp del]

definition ecsTick ::
  "(funptr \<Rightarrow> 'h ECSIterator option) \<Rightarrow> ECS \<Rightarrow> 'h \<Rightarrow> error + (ECS \<times> 'h)" where
  "ecsTick code ecs w = ecsTick_from code 0 ecs w"

section \<open>Vocabulary of the properties\<close>

subsection \<open>Sequences of entity operations\<close>

text \<open>A client that only creates and destroys entities issues a list of these calls; the
  run stops at the first call that aborts.\<close>

datatype entity_op = NewEntity | DestroyEntity Entity

fun apply_op :: "ECS \<Rightarrow> entity_op \<Rightarrow> error + ECS" where
  "apply_op s NewEntity = (case newEntity s of Inl e \<Rightarrow> Inl e | Inr (s', h) \<Rightarrow> Inr s')"
| "apply_op s (DestroyEntity e) = destroyEntity s e"

fun run_ops :: "ECS \<Rightarrow> entity_op list \<Rightarrow> error + ECS" where
  "run_ops s [] = Inr s"
| "run_ops s (x # xs) = (case apply_op s x of Inl e \<Rightarrow> Inl e | Inr s' \<Rightarrow> run_ops s' xs)"

text \<open>A call destroys slot \<open>ix\<close> when it is a \<open>destroyEntity\<close> of a handle of that slot
  that is valid at the time of the call; \<open>destroy_cycles\<close> counts these calls in a run.\<close>

fun destroys_slot :: "Index \<Rightarrow> ECS \<Rightarrow> entity_op \<Rightarrow> bool" where
  "destroys_slot ix s NewEntity = False"
| "destroys_slot ix s (DestroyEntity e) = (entityIndex e = ix \<and> isEntityValid s e = Inr True)"

fun destroy_cycles :: "Index \<Rightarrow> ECS \<Rightarrow> entity_op list \<Rightarrow> nat" where
  "destroy_cycles ix s [] = 0"
| "destroy_cycles ix s (x # xs) =
     (case apply_op s x of
        Inl e \<Rightarrow> 0
      | Inr s' \<Rightarrow> (if destroys_slot ix s x then 1 else 0) + destroy_cycles ix s' xs)"

subsection \<open>Membership masks\<close>

text \<open>The registry with the membership mask of slot \<open>i\<close> replaced by \<open>m\<close>: the one write
  that \<open>addComponentID\<close> and \<open>removeComponentID\<close> make.\<close>

definition set_components :: "ECS \<Rightarrow> nat \<Rightarrow> ComponentMask \<Rightarrow> ECS" where
  "set_components s i m =
     s\<lparr>entities := (entities s)\<lparr>data := (data (entities s))
          [i := (data (entities s) ! i)\<lparr>components := m\<rparr>]\<rparr>\<rparr>"

subsection \<open>Component names\<close>

text \<open>No descriptor from index \<open>i\<close> on carries the name \<open>n\<close>, and every pointer the scan
  would read has been assigned.\<close>

definition unregistered :: "ECS \<Rightarrow> string \<Rightarrow> nat \<Rightarrow> bool" where
  "unregistered s n i \<longleftrightarrow>
     (\<forall>k. i \<le> k \<and> k < unat (compDataCount s) \<longrightarrow>
        k < length (compData s) \<and> (\<exists>c. compData s ! k = Some c \<and> id_cd c \<noteq> n))"

text \<open>The registry after a first declaration of \<open>n\<close> with element size \<open>sz\<close>: a new
  zero-filled block behind the next pointer, and the count advanced.\<close>

definition declared :: "ECS \<Rightarrow> string \<Rightarrow> nat \<Rightarrow> ECS" where
  "declared s n sz =
     s\<lparr>compData := (compData s)[unat (compDataCount s) :=
          Some \<lparr>size_cd = sz, id_cd = n, data_cd = replicate (ECS_MAX_ENTITIES * sz) 0\<rparr>],
       compDataCount := compDataCount s + 1\<rparr>"


text \<open>Every ID below \<open>compDataCount\<close> has its block: the pointer has been assigned.\<close>

definition comps_assigned :: "ECS \<Rightarrow> bool" where
  "comps_assigned s \<longleftrightarrow>
     (\<forall>k. k < unat (compDataCount s) \<longrightarrow>
        k < length (compData s) \<and> (\<exists>c. compData s ! k = Some c))"

subsection \<open>Sequences of API calls\<close>

text \<open>
  \<open>api code s t\<close>: some sequence of calls of the functions of \<open>ecs.h\<close> that return takes
  the registry \<open>s\<close> to \<open>t\<close>. The arguments of the calls are arbitrary, forged handles
  included. \<open>matchEntities\<close> and \<open>ecsTick\<close> run host callbacks; the registry type is opaque
  to the host, so a callback changes the registry only by API calls of its own, which is
  the second premise of their rules.
\<close>

inductive api :: "(funptr \<Rightarrow> 'h ECSIterator option) \<Rightarrow> ECS \<Rightarrow> ECS \<Rightarrow> bool"
  for code :: "funptr \<Rightarrow> 'h ECSIterator option" where
  api_refl: "api code s s"
| api_newEntity: "api code s t \<Longrightarrow> newEntity t = Inr (t', h) \<Longrightarrow> api code s t'"
| api_newEntityWithArchetype:
    "api code s t \<Longrightarrow> newEntityWithArchetype t a = Inr (t', h) \<Longrightarrow> api code s t'"
| api_destroyEntity: "api code s t \<Longrightarrow> destroyEntity t e = Inr t' \<Longrightarrow> api code s t'"
| api_addComponentID: "api code s t \<Longrightarrow> addComponentID t e c = Inr (t', p) \<Longrightarrow> api code s t'"
| api_getComponentID: "api code s t \<Longrightarrow> getComponentID t e c = Inr (t', p) \<Longrightarrow> api code s t'"
| api_removeComponentID: "api code s t \<Longrightarrow> removeComponentID t e c = Inr t' \<Longrightarrow> api code s t'"
| api_ecsDeclareComponent:
    "api code s t \<Longrightarrow> ecsDeclareComponent t n sz = Inr (t', k) \<Longrightarrow> api code s t'"
| api_newSystem: "api code s t \<Longrightarrow> newSystem t m it ud = Inr (t', k) \<Longrightarrow> api code s t'"
| api_destroySystem: "api code s t \<Longrightarrow> destroySystem t k = Inr t' \<Longrightarrow> api code s t'"
| api_matchEntities:
    "api code s t \<Longrightarrow>
     (\<forall>f g a e u v a' v'. code f = Some g \<longrightarrow> g a e u v = Inr (a', v') \<longrightarrow> api code a a') \<Longrightarrow>
     matchEntities code t m it ud w = Inr (t', w') \<Longrightarrow> api code s t'"
| api_ecsTick:
    "api code s t \<Longrightarrow>
     (\<forall>f g a e u v a' v'. code f = Some g \<longrightarrow> g a e u v = Inr (a', v') \<longrightarrow> api code a a') \<Longrightarrow>
     ecsTick code t w = Inr (t', w') \<Longrightarrow> api code s t'"

text \<open>The entity array has its declared size and no slot has a flag bit set.\<close>

definition flags_clear :: "ECS \<Rightarrow> bool" where
  "flags_clear s \<longleftrightarrow>
     length (data (entities s)) = ECS_MAX_ENTITIES \<and>
     (\<forall>d \<in> set (data (entities s)). flags d = 0)"

subsection \<open>Observing the matcher\<close>

text \<open>A callback that leaves the registry alone and appends the handle it is given to a
  list kept by the host; it lives at the address \<open>visit_fn\<close>.\<close>

definition record_visit :: "Entity list ECSIterator" where
  "record_visit ecs e ud seen = Inr (ecs, seen @ [e])"

definition visit_fn :: funptr where
  "visit_fn = 1"

definition recorder :: "funptr \<Rightarrow> Entity list ECSIterator option" where
  "recorder f = (if f = visit_fn then Some record_visit else None)"

text \<open>The slots whose membership mask contains \<open>m\<close>, in ascending order; the handle
  \<open>matchEntities\<close> builds for a slot; and the slots that hold a live entity, those whose
  index is not on the free list.\<close>

definition matching_slots :: "ECS \<Rightarrow> ComponentMask \<Rightarrow> nat list" where
  "matching_slots s m =
     filter (\<lambda>i. components (data (entities s) ! i) AND m = m) [0..<ECS_MAX_ENTITIES]"

definition handle_of_slot :: "ECS \<Rightarrow> nat \<Rightarrow> Entity" where
  "handle_of_slot s i = createHandle (of_nat i) (generation (data (entities s) ! i))"

definition live_slots :: "ECS \<Rightarrow> nat list" where
  "live_slots s =
     filter (\<lambda>i. of_nat i \<notin> set (take (unat (freeCount (entities s))) (freeList (entities s))))
       [0..<ECS_MAX_ENTITIES]"

subsection \<open>Concrete registries\<close>

text \<open>A registry fresh from \<open>newECS\<close>, in a block whose system table reads as zeroes, and
  the registries that creating the first entity and destroying it again lead to.\<close>

definition blank_systems :: "System list" where
  "blank_systems =
     replicate ECS_MAX_SYSTEMS \<lparr>id_sys = 0, mask_sys = 0, func = 0, userData = 0\<rparr>"

definition fresh :: ECS where
  "fresh = newECS blank_systems"

definition one_entity :: ECS where
  "one_entity = fresh\<lparr>entities := (entities fresh)\<lparr>freeCount := 127,
       data := (data (entities fresh))[0 := createEntityData 0]\<rparr>\<rparr>"

definition one_destroyed :: ECS where
  "one_destroyed = fresh\<lparr>entities := (entities fresh)\<lparr>freeCount := 128,
       data := (data (entities fresh))[0 := createEntityData 1]\<rparr>\<rparr>"

definition slot_reused :: ECS where
  "slot_reused = fresh\<lparr>entities := (entities fresh)\<lparr>freeCount := 127,
       data := (data (entities fresh))[0 := createEntityData 1]\<rparr>\<rparr>"

text \<open>The registry after \<open>ECS_COMPONENT(world, Position)\<close> with an 8-byte \<open>Position\<close>, then
  with its first entity, then with its second.\<close>

definition position_data :: ComponentData where
  "position_data = \<lparr>size_cd = 8, id_cd = ''Position'',
     data_cd = replicate (ECS_MAX_ENTITIES * 8) 0\<rparr>"

definition with_position :: ECS where
  "with_position = fresh\<lparr>compData := (compData fresh)[0 := Some position_data],
     compDataCount := 1\<rparr>"

definition one_of_two :: ECS where
  "one_of_two = with_position\<lparr>entities := (entities with_position)\<lparr>freeCount := 127,
       data := (data (entities with_position))[0 := createEntityData 0]\<rparr>\<rparr>"

definition two_entities :: ECS where
  "two_entities = with_position\<lparr>entities := (entities with_position)\<lparr>freeCount := 126,
       data := (data (entities with_position))
         [0 := createEntityData 0, 1 := createEntityData 0]\<rparr>\<rparr>"



text \<open>The fresh registry after one and after two calls of \<open>newSystem\<close>.\<close>

definition one_system :: ECS where
  "one_system = fresh\<lparr>systems := (systems fresh)
       [0 := \<lparr>id_sys = 0, mask_sys = 1, func = visit_fn, userData = 0\<rparr>],
     systemCount := 1, nextSystemID := 1\<rparr>"

definition two_systems :: ECS where
  "two_systems = fresh\<lparr>systems := (systems fresh)
       [0 := \<lparr>id_sys = 0, mask_sys = 1, func = visit_fn, userData = 0\<rparr>,
        1 := \<lparr>id_sys = 1, mask_sys = 2, func = visit_fn, userData = 0\<rparr>],
     systemCount := 2, nextSystemID := 2\<rparr>"

section \<open>Properties\<close>

subsection \<open>Handles and generations\<close>

lemma ffff_mask32: "(0xffff :: 32 word) = mask 16"
  by (simp add: mask_eq_exp_minus_1)

lemma generation_createEntityData: "generation (createEntityData g) = g"
  unfolding generation_def createEntityData_def
  by (rule bit_word_eqI) (auto simp: ffff_mask32 bit_simps dest: bit_imp_le_length)

lemma flags_createEntityData: "flags (createEntityData g) = 0"
  unfolding flags_def createEntityData_def
  by (rule bit_word_eqI) (auto simp: ffff_mask32 bit_simps dest: bit_imp_le_length)

lemma entityIndex_createHandle: "entityIndex (createHandle i g) = i"
  unfolding entityIndex_def createHandle_def
  by (rule bit_word_eqI) (auto simp: ffff_mask32 bit_simps dest: bit_imp_le_length)

lemma entityGen_createHandle: "entityGen (createHandle i g) = ucast g"
  unfolding entityGen_def createHandle_def
  by (rule bit_word_eqI) (auto simp: ffff_mask32 bit_simps dest: bit_imp_le_length)

lemma uint_ucast_8_16: "uint (ucast (g :: 8 word) :: 16 word) = uint g"
  by (simp add: uint_up_ucast is_up)

lemma ucast_of_uint_eq: "uint (g :: 8 word) = uint (e :: 16 word) \<Longrightarrow> ucast e = g"
  by (metis of_int_uint word_of_int_uint)

lemma unat_index_inj: "unat (a :: 16 word) = unat b \<Longrightarrow> a = b"
  by (simp add: word_unat_eq_iff)

lemma isEntityValid_iff:
  "unat (entityIndex h) < length (data (entities s)) \<Longrightarrow>
   isEntityValid s h =
     Inr (uint (generation (data (entities s) ! unat (entityIndex h))) = uint (entityGen h))"
  by (simp add: isEntityValid_def Let_def)

lemma isEntityValid_in_range:
  "isEntityValid s h = Inr b \<Longrightarrow> unat (entityIndex h) < length (data (entities s))"
  by (simp add: isEntityValid_def Let_def split: if_splits)

lemma newEntity_valid:
  "newEntity s0 = Inr (s1, h) \<Longrightarrow> isEntityValid s1 h = Inr True"
  by (auto simp: newEntity_def newEntityFromPool_def isEntityValid_def Let_def
      entityIndex_createHandle entityGen_createHandle generation_createEntityData uint_ucast_8_16
      split: if_splits sum.splits prod.splits)

text \<open>\<open>newEntity\<close> keeps every slot's generation; a \<open>destroyEntity\<close> that takes effect
  adds one to the generation of its slot, modulo 256, and to no other.\<close>

lemma newEntity_generation:
  assumes "newEntity s = Inr (s', h)"
  shows "length (data (entities s')) = length (data (entities s))"
    and "generation (data (entities s') ! j) = generation (data (entities s) ! j)"
  using assms
  by (auto simp: newEntity_def newEntityFromPool_def Let_def nth_list_update
      generation_createEntityData split: if_splits sum.splits prod.splits)

lemma destroyEntity_generation:
  assumes "destroyEntity s e = Inr s'" and "unat ix < length (data (entities s))"
  shows "length (data (entities s')) = length (data (entities s))"
    and "generation (data (entities s') ! unat ix) =
         generation (data (entities s) ! unat ix) +
           (if entityIndex e = ix \<and> isEntityValid s e = Inr True then 1 else 0)"
  using assms
  by (auto simp: destroyEntity_def returnEntityToPool_def isEntityValid_def Let_def
      nth_list_update generation_createEntityData ucast_of_uint_eq
      dest: unat_index_inj split: if_splits sum.splits)

lemma apply_op_generation:
  assumes "apply_op s x = Inr s'" and "unat ix < length (data (entities s))"
  shows "length (data (entities s')) = length (data (entities s))"
    and "generation (data (entities s') ! unat ix) =
         generation (data (entities s) ! unat ix) + (if destroys_slot ix s x then 1 else 0)"
proof -
  show "length (data (entities s')) = length (data (entities s))"
    using assms
    by (cases x) (auto simp: newEntity_generation(1) destroyEntity_generation(1)
        split: sum.splits prod.splits)
  show "generation (data (entities s') ! unat ix) =
         generation (data (entities s) ! unat ix) + (if destroys_slot ix s x then 1 else 0)"
  proof (cases x)
    case NewEntity
    then show ?thesis using assms
      by (auto simp: newEntity_generation(2) split: sum.splits prod.splits)
  next
    case (DestroyEntity e)
    then show ?thesis using assms destroyEntity_generation(2) [of s e s' ix]
      by simp
  qed
qed

lemma run_ops_generation:
  "run_ops s xs = Inr s' \<Longrightarrow> unat ix < length (data (entities s)) \<Longrightarrow>
   length (data (entities s')) = length (data (entities s)) \<and>
   generation (data (entities s') ! unat ix) =
     generation (data (entities s) ! unat ix) + of_nat (destroy_cycles ix s xs)"
proof (induction xs arbitrary: s)
  case Nil
  then show ?case by simp
next
  case (Cons x xs)
  from Cons.prems obtain t where t: "apply_op s x = Inr t" and r: "run_ops t xs = Inr s'"
    by (auto split: sum.splits)
  have len: "length (data (entities t)) = length (data (entities s))"
    and gen: "generation (data (entities t) ! unat ix) =
         generation (data (entities s) ! unat ix) + (if destroys_slot ix s x then 1 else 0)"
    using apply_op_generation [OF t Cons.prems(2)] by simp_all
  have "unat ix < length (data (entities t))" using len Cons.prems(2) by simp
  from Cons.IH [OF r this] len gen t show ?case
    by simp
qed

lemma gen_window:
  assumes "0 < k" "k < 256"
  shows "(g :: 8 word) + of_nat k \<noteq> g"
proof
  assume "g + of_nat k = g"
  then have "(of_nat k :: 8 word) = 0" by simp
  then have "unat (of_nat k :: 8 word) = 0" by simp
  then show False using assms by (simp add: unat_of_nat)
qed

lemma stale_generation:
  assumes "uint (g :: 8 word) = uint (e :: 16 word)" and "0 < k" and "k < 256"
  shows "uint (g + of_nat k) \<noteq> uint e"
proof -
  have "g + of_nat k \<noteq> g" using assms(2,3) by (rule gen_window)
  then have "uint (g + of_nat k) \<noteq> uint g" by (simp add: word_uint_eq_iff)
  then show ?thesis using assms(1) by simp
qed

text \<open>The window is tight: the 256th destroy of the slot brings the generation back, and
  the handle destroyed first passes the validity test again.\<close>

lemma handle_valid_again_after_wraparound:
  assumes "isEntityValid s h = Inr True"
    and "destroyEntity s h = Inr s2"
    and "run_ops s2 after = Inr s3"
    and "Suc (destroy_cycles (entityIndex h) s2 after) = 256"
  shows "isEntityValid s3 h = Inr True"
proof -
  let ?ix = "entityIndex h"
  have r: "unat ?ix < length (data (entities s))" using assms(1) by (rule isEntityValid_in_range)
  have g: "uint (generation (data (entities s) ! unat ?ix)) = uint (entityGen h)"
    using assms(1) isEntityValid_iff [OF r] by simp
  from destroyEntity_generation [OF assms(2) r] assms(1)
  have len2: "length (data (entities s2)) = length (data (entities s))"
    and gen2: "generation (data (entities s2) ! unat ?ix) =
               generation (data (entities s) ! unat ?ix) + 1"
    by simp_all
  have r2: "unat ?ix < length (data (entities s2))" using r len2 by simp
  from run_ops_generation [OF assms(3) r2]
  have len3: "length (data (entities s3)) = length (data (entities s2))"
    and gen3: "generation (data (entities s3) ! unat ?ix) =
       generation (data (entities s2) ! unat ?ix) + of_nat (destroy_cycles ?ix s2 after)"
    by simp_all
  have r3: "unat ?ix < length (data (entities s3))" using r2 len3 by simp
  have "destroy_cycles ?ix s2 after = 255" using assms(4) by simp
  then have "generation (data (entities s3) ! unat ?ix) =
      generation (data (entities s) ! unat ?ix)"
    using gen3 gen2 by simp
  then show ?thesis using isEntityValid_iff [OF r3] g by simp
qed

subsection \<open>The concrete registries are what the calls produce\<close>

lemma newEntity_fresh: "newEntity fresh = Inr (one_entity, 0)"
  by (simp add: newEntity_def newEntityFromPool_def fresh_def newECS_def initEntityPool_def
      one_entity_def ECS_MAX_ENTITIES_def Let_def generation_def createHandle_def
      createEntityData_def)

lemma destroyEntity_one_entity: "destroyEntity one_entity 0 = Inr one_destroyed"
  by (simp add: destroyEntity_def isEntityValid_def returnEntityToPool_def fresh_def
      newECS_def initEntityPool_def one_entity_def one_destroyed_def ECS_MAX_ENTITIES_def
      Let_def generation_def entityIndex_def entityGen_def createEntityData_def
      list_update_same_conv)

lemma newEntity_one_destroyed: "newEntity one_destroyed = Inr (slot_reused, 0x10000)"
  by (simp add: newEntity_def newEntityFromPool_def fresh_def newECS_def initEntityPool_def
      one_destroyed_def slot_reused_def ECS_MAX_ENTITIES_def Let_def generation_def
      createHandle_def createEntityData_def)

subsection \<open>Claims about entities\<close>

text \<open>
  C5. A handle returned by \<open>newEntity\<close> is valid right after its creation, and stays valid
  while no call destroys its slot. After \<open>destroyEntity\<close> of that handle it is invalid, and
  it is invalid in every state that later \<open>newEntity\<close> and \<open>destroyEntity\<close> calls lead to,
  also when they reuse its slot for new entities, as long as fewer than 256 destroys of that
  slot have taken effect, the destroy of the handle itself being the first of them (the
  generation is one byte and wraps at the 256th).
\<close>

theorem handle_lifecycle:
  assumes "newEntity s0 = Inr (s1, h)"
    and "run_ops s1 before = Inr s"
    and "destroy_cycles (entityIndex h) s1 before = 0"
    and "destroyEntity s h = Inr s2"
    and "run_ops s2 after = Inr s3"
    and "Suc (destroy_cycles (entityIndex h) s2 after) < 256"
  shows "isEntityValid s1 h = Inr True \<and> isEntityValid s h = Inr True \<and>
         isEntityValid s2 h = Inr False \<and> isEntityValid s3 h = Inr False"
proof -
  let ?ix = "entityIndex h"
  have v1: "isEntityValid s1 h = Inr True" using assms(1) by (rule newEntity_valid)
  then have r1: "unat ?ix < length (data (entities s1))" by (rule isEntityValid_in_range)
  from run_ops_generation [OF assms(2) r1] assms(3)
  have len: "length (data (entities s)) = length (data (entities s1))"
    and gen: "generation (data (entities s) ! unat ?ix) =
              generation (data (entities s1) ! unat ?ix)"
    by simp_all
  have r: "unat ?ix < length (data (entities s))" using r1 len by simp
  have g1: "uint (generation (data (entities s1) ! unat ?ix)) = uint (entityGen h)"
    using v1 isEntityValid_iff [OF r1] by simp
  have v: "isEntityValid s h = Inr True"
    using isEntityValid_iff [OF r] gen g1 by simp
  from destroyEntity_generation [OF assms(4) r] v
  have len2: "length (data (entities s2)) = length (data (entities s))"
    and gen2: "generation (data (entities s2) ! unat ?ix) =
               generation (data (entities s) ! unat ?ix) + 1"
    by simp_all
  have r2: "unat ?ix < length (data (entities s2))" using r len2 by simp
  from run_ops_generation [OF assms(5) r2]
  have len3: "length (data (entities s3)) = length (data (entities s2))"
    and gen3: "generation (data (entities s3) ! unat ?ix) =
       generation (data (entities s2) ! unat ?ix) + of_nat (destroy_cycles ?ix s2 after)"
    by simp_all
  have r3: "unat ?ix < length (data (entities s3))" using r2 len3 by simp
  let ?g = "generation (data (entities s) ! unat ?ix)"
  have g: "uint ?g = uint (entityGen h)" using gen g1 by simp
  have "uint (?g + of_nat 1) \<noteq> uint (entityGen h)"
    using g by (rule stale_generation) simp_all
  then have v2: "isEntityValid s2 h = Inr False"
    using isEntityValid_iff [OF r2] gen2 by simp
  have "uint (?g + of_nat (Suc (destroy_cycles ?ix s2 after))) \<noteq> uint (entityGen h)"
    using g by (rule stale_generation) (use assms(6) in simp_all)
  then have v3: "isEntityValid s3 h = Inr False"
    using isEntityValid_iff [OF r3] gen3 gen2 by (simp add: add.assoc)
  from v1 v v2 v3 show ?thesis by simp
qed

text \<open>The first entity of a fresh registry has slot 0 and generation 0. Once it is
  destroyed, the next \<open>newEntity\<close> reuses slot 0 with generation 1, and the old handle
  stays invalid.\<close>

theorem handle_lifecycle_witness:
  "isEntityValid one_entity 0 = Inr True \<and> isEntityValid one_destroyed 0 = Inr False \<and>
   isEntityValid slot_reused 0 = Inr False"
proof -
  have idx: "entityIndex 0 = 0" by (simp add: entityIndex_def)
  have a: "run_ops one_entity [] = Inr one_entity" by simp
  have b: "destroy_cycles (entityIndex 0) one_entity [] = 0" by simp
  have c: "run_ops one_destroyed [NewEntity] = Inr slot_reused"
    by (simp add: newEntity_one_destroyed)
  have d: "Suc (destroy_cycles (entityIndex 0) one_destroyed [NewEntity]) < 256"
    by (simp add: newEntity_one_destroyed)
  from handle_lifecycle [OF newEntity_fresh a b destroyEntity_one_entity c d]
  show ?thesis by simp
qed

text \<open>
  C8. \<open>destroyEntity\<close> with a handle for which \<open>isEntityValid\<close> is false returns the
  registry as it was: every slot, the free list and the free count, and all the rest.
\<close>

theorem destroyEntity_invalid_noop:
  "isEntityValid s h = Inr False \<Longrightarrow> destroyEntity s h = Inr s"
  by (simp add: destroyEntity_def)

theorem destroyEntity_invalid_noop_witness:
  "destroyEntity one_destroyed 0 = Inr one_destroyed"
proof -
  have "isEntityValid one_destroyed 0 = Inr False"
    by (simp add: isEntityValid_def fresh_def newECS_def initEntityPool_def one_destroyed_def
        ECS_MAX_ENTITIES_def Let_def generation_def entityIndex_def entityGen_def
        createEntityData_def)
  then show ?thesis by (rule destroyEntity_invalid_noop)
qed

subsection \<open>Membership bits and storage addresses\<close>

lemma set_bit_test: "n < 8 \<Longrightarrow> ((c :: 8 word) OR push_bit n 1) AND push_bit n 1 \<noteq> 0"
proof -
  assume n: "n < 8"
  have b: "bit (((c :: 8 word) OR push_bit n 1) AND push_bit n 1) n"
    using n by (simp add: bit_simps)
  show ?thesis
  proof
    assume z: "(c OR push_bit n 1) AND push_bit n 1 = 0"
    from b show False unfolding z by simp
  qed
qed

lemma storageAddress_cong: "compData s' = compData s \<Longrightarrow> storageAddress s' X = storageAddress s X"
  by (simp add: storageAddress_def)

lemma clear_bit_test: "((c :: 8 word) AND NOT (push_bit n 1)) AND push_bit n 1 = 0"
  by (rule bit_word_eqI) (auto simp: bit_simps)

lemma bit_set_bit: "n < 8 \<Longrightarrow> bit ((c :: 8 word) OR push_bit n 1) k = (bit c k \<or> k = n)"
  by (auto simp: bit_simps dest: bit_imp_le_length)

lemma bit_clear_bit: "bit ((c :: 8 word) AND NOT (push_bit n 1)) k = (bit c k \<and> k \<noteq> n)"
  by (auto simp: bit_simps dest: bit_imp_le_length)

lemma addComponentID_result:
  assumes "isEntityValid s e = Inr True" and "unat X < ECS_MAX_COMPS"
    and "addComponentID s e X = Inr (s', p)"
  shows "s' = s\<lparr>entities := (entities s)\<lparr>data := (data (entities s))
            [unat (entityIndex e) := (data (entities s) ! unat (entityIndex e))
               \<lparr>components := components (data (entities s) ! unat (entityIndex e))
                    OR push_bit (unat X) 1\<rparr>]\<rparr>\<rparr>"
    and "storageAddress s X = Inr p"
  using assms
  by (auto simp: addComponentID_def Let_def storageAddress_def split: sum.splits if_splits option.splits)

lemma storageAddress_not_NULL: "storageAddress s X = Inr p \<Longrightarrow> p \<noteq> NULL"
  by (auto simp: storageAddress_def split: if_splits option.splits)


lemma set_components_simps:
  "compData (set_components s i m) = compData s"
  "length (data (entities (set_components s i m))) = length (data (entities s))"
  "i < length (data (entities s)) \<Longrightarrow> components (data (entities (set_components s i m)) ! i) = m"
  "i < length (data (entities s)) \<Longrightarrow> info (data (entities (set_components s i m)) ! i) = info (data (entities s) ! i)"
  "j \<noteq> i \<Longrightarrow> data (entities (set_components s i m)) ! j = data (entities s) ! j"
  "(set_components s i m)\<lparr>entities := entities s\<rparr> = s"
  "(entities (set_components s i m))\<lparr>data := data (entities s)\<rparr> = entities s"
  by (simp_all add: set_components_def)

lemma isEntityValid_set_components:
  "isEntityValid (set_components s i m) e = isEntityValid s e"
  by (cases "i = unat (entityIndex e)")
     (simp_all add: isEntityValid_def Let_def set_components_def generation_def)

lemma addComponentID_state: 
  assumes "isEntityValid s e = Inr True" and "unat X < ECS_MAX_COMPS"
    and "addComponentID s e X = Inr (s', p)"
  shows "s' = set_components s (unat (entityIndex e)) (components (data (entities s) ! unat (entityIndex e))
                    OR push_bit (unat X) 1)"
  using addComponentID_result(1)[OF assms] by (simp add: set_components_def)

lemma removeComponentID_state:
  assumes "isEntityValid s e = Inr True" and "unat X < ECS_MAX_COMPS"
  shows "removeComponentID s e X = Inr (set_components s (unat (entityIndex e)) (components (data (entities s) ! unat (entityIndex e))
                    AND NOT (push_bit (unat X) 1)))"
  using assms by (simp add: removeComponentID_def Let_def set_components_def)

lemma getComponentID_unfold:
  assumes "isEntityValid s e = Inr True" and "unat X < ECS_MAX_COMPS"
  shows "getComponentID s e X = (if components (data (entities s) ! unat (entityIndex e)) AND push_bit (unat X) 1 = 0 then Inr (s, NULL)
     else case storageAddress s X of Inl e \<Rightarrow> Inl e | Inr p \<Rightarrow> Inr (s, p))"
  using assms by (simp add: getComponentID_def Let_def)

subsection \<open>Component lookup\<close>



lemma lookup_found:
  "i \<le> j \<Longrightarrow> j < unat (compDataCount s) \<Longrightarrow> j < length (compData s) \<Longrightarrow>
   compData s ! j = Some c \<Longrightarrow> id_cd c = n \<Longrightarrow>
   (\<forall>k. i \<le> k \<and> k < j \<longrightarrow>
        k < length (compData s) \<and> (\<exists>c'. compData s ! k = Some c' \<and> id_cd c' \<noteq> n)) \<Longrightarrow>
   ecsComponentID_from s n i = Inr (of_nat j)"
proof (induction s n i rule: ecsComponentID_from.induct)
  case (1 ecs name i)
  have lt: "i < unat (compDataCount ecs)" using "1.prems" by simp
  show ?case
  proof (cases "i = j")
    case True
    then show ?thesis using "1.prems" by (subst ecsComponentID_from.simps) simp
  next
    case False
    then have ij: "i < j" using "1.prems"(1) by simp
    with "1.prems"(6) obtain c' where c': "i < length (compData ecs)" "compData ecs ! i = Some c'"
      "id_cd c' \<noteq> name"
      by auto
    have "ecsComponentID_from ecs name (i + 1) = Inr (of_nat j)"
      using "1.IH" [OF lt c'(1) c'(2) c'(3)] "1.prems" ij by simp
    then show ?thesis using lt c' by (subst ecsComponentID_from.simps) simp
  qed
qed

lemma lookup_cases:
  "ecsComponentID_from s n i = Inr r \<Longrightarrow>
   (\<exists>j c. i \<le> j \<and> j < unat (compDataCount s) \<and> j < length (compData s) \<and>
       compData s ! j = Some c \<and> id_cd c = n \<and> r = of_nat j) \<or>
   (r = of_nat ECS_MAX_COMPS \<and> unregistered s n i)"
proof (induction s n i rule: ecsComponentID_from.induct)
  case (1 ecs name i)
  show ?case
  proof (cases "i < unat (compDataCount ecs)")
    case False
    then show ?thesis using "1.prems"
      by (subst (asm) ecsComponentID_from.simps) (auto simp: unregistered_def)
  next
    case True
    from "1.prems" True obtain c where c: "i < length (compData ecs)" "compData ecs ! i = Some c"
      by (subst (asm) ecsComponentID_from.simps) (auto split: if_splits option.splits)
    show ?thesis
    proof (cases "id_cd c = name")
      case same: True
      then have "r = of_nat i" using "1.prems" True c
        by (subst (asm) ecsComponentID_from.simps) simp
      then show ?thesis using True c same by blast
    next
      case diff: False
      then have "ecsComponentID_from ecs name (i + 1) = Inr r" using "1.prems" True c
        by (subst (asm) ecsComponentID_from.simps) simp
      from "1.IH" [OF True c(1) c(2) diff this]
      show ?thesis
      proof
        assume "\<exists>j c. i + 1 \<le> j \<and> j < unat (compDataCount ecs) \<and> j < length (compData ecs) \<and>
          compData ecs ! j = Some c \<and> id_cd c = name \<and> r = of_nat j"
        then obtain j c where j: "i + 1 \<le> j" "j < unat (compDataCount ecs)"
          "j < length (compData ecs)" "compData ecs ! j = Some c" "id_cd c = name" "r = of_nat j"
          by blast
        from j(1) have "i \<le> j" by simp
        with j show ?thesis by blast
      next
        assume a: "r = of_nat ECS_MAX_COMPS \<and> unregistered ecs name (i + 1)"
        have "unregistered ecs name i"
          unfolding unregistered_def
        proof (intro allI impI)
          fix k assume k: "i \<le> k \<and> k < unat (compDataCount ecs)"
          show "k < length (compData ecs) \<and> (\<exists>c. compData ecs ! k = Some c \<and> id_cd c \<noteq> name)"
          proof (cases "k = i")
            case True
            then show ?thesis using c diff by simp
          next
            case False
            then have "i + 1 \<le> k" using k by simp
            then show ?thesis using a k by (simp add: unregistered_def)
          qed
        qed
        then show ?thesis using a by simp
      qed
    qed
  qed
qed



lemma small_id_not_sentinel: "j < ECS_MAX_COMPS \<Longrightarrow> (of_nat j :: ECSID) \<noteq> of_nat ECS_MAX_COMPS"
proof
  assume j: "j < ECS_MAX_COMPS" and e: "(of_nat j :: ECSID) = of_nat ECS_MAX_COMPS"
  from e have "unat (of_nat j :: ECSID) = unat (of_nat ECS_MAX_COMPS :: ECSID)" by simp
  then show False using j by (simp add: unat_of_nat ECS_MAX_COMPS_def)
qed


lemma lookup_declared:
  assumes "unregistered s n 0" and "unat (compDataCount s) < ECS_MAX_COMPS"
    and "unat (compDataCount s) < length (compData s)"
  shows "ecsComponentID (declared s n sz) n = Inr (compDataCount s)"
proof -
  let ?j = "unat (compDataCount s)"
  let ?t = "declared s n sz"
  have cnt: "unat (compDataCount ?t) = ?j + 1"
    using assms(2) by (simp add: declared_def unat_word_ariths ECS_MAX_COMPS_def)
  have len: "length (compData ?t) = length (compData s)" by (simp add: declared_def)
  have at: "compData ?t ! ?j = Some \<lparr>size_cd = sz, id_cd = n,
      data_cd = replicate (ECS_MAX_ENTITIES * sz) 0\<rparr>"
    using assms(3) by (simp add: declared_def)
  have before: "\<forall>k. 0 \<le> k \<and> k < ?j \<longrightarrow>
        k < length (compData ?t) \<and> (\<exists>c'. compData ?t ! k = Some c' \<and> id_cd c' \<noteq> n)"
    using assms(1) by (auto simp: unregistered_def declared_def)
  have "ecsComponentID_from ?t n 0 = Inr (of_nat ?j)"
    by (rule lookup_found [OF _ _ _ at _ before]) (use cnt len assms(3) in simp_all)
  then show ?thesis by (simp add: ecsComponentID_def)
qed

lemma declare_cases:
  assumes "ecsDeclareComponent s n sz = Inr (s1, k)"
  shows "(s1 = s \<and> ecsComponentID s n = Inr k \<and> k \<noteq> of_nat ECS_MAX_COMPS) \<or>
         (s1 = declared s n sz \<and> k = compDataCount s \<and> unregistered s n 0 \<and>
          unat (compDataCount s) < ECS_MAX_COMPS \<and>
          unat (compDataCount s) < length (compData s) \<and> length n < 64)"
proof -
  from assms obtain r where r: "ecsComponentID s n = Inr r"
    by (auto simp: ecsDeclareComponent_def split: sum.splits)
  show ?thesis
  proof (cases "r = of_nat ECS_MAX_COMPS")
    case False
    then show ?thesis using assms r by (simp add: ecsDeclareComponent_def)
  next
    case True
    with assms r have c: "unat (compDataCount s) < ECS_MAX_COMPS"
      "unat (compDataCount s) < length (compData s)" "length n < 64"
      "s1 = declared s n sz" "k = compDataCount s"
      by (auto simp: ecsDeclareComponent_def declared_def Let_def split: if_splits)
    from lookup_cases [OF r [unfolded ecsComponentID_def]]
    have "unregistered s n 0"
    proof
      assume "\<exists>j c. 0 \<le> j \<and> j < unat (compDataCount s) \<and> j < length (compData s) \<and>
        compData s ! j = Some c \<and> id_cd c = n \<and> r = of_nat j"
      then obtain j where "j < unat (compDataCount s)" "r = of_nat j" by blast
      then have "r \<noteq> of_nat ECS_MAX_COMPS" using c(1) small_id_not_sentinel [of j] by simp
      then show ?thesis using True by simp
    qed simp
    then show ?thesis using c by simp
  qed
qed







subsection \<open>The flag bits are never written\<close>

lemma flags_components_update: "flags (d\<lparr>components := c\<rparr>) = flags d"
  by (simp add: flags_def)

lemma in_set_update: "d \<in> set (xs[i := v]) \<Longrightarrow> d = v \<or> d \<in> set xs"
  using set_update_subset_insert [of xs i v] by auto

lemma flags_clear_update:
  assumes "flags_clear s" and "flags v = 0"
    and "data (entities s') = (data (entities s))[i := v]"
  shows "flags_clear s'"
  using assms by (auto simp: flags_clear_def dest: in_set_update)

lemma flags_clear_same:
  "flags_clear s \<Longrightarrow> data (entities s') = data (entities s) \<Longrightarrow> flags_clear s'"
  by (simp add: flags_clear_def)

lemma flags_clear_newECS: "flags_clear (newECS junk)"
  by (simp add: flags_clear_def newECS_def initEntityPool_def flags_def)

lemma flags_clear_set_components:
  assumes "flags_clear s"
    and "data (entities s') = (data (entities s))[i := (data (entities s) ! i)\<lparr>components := c\<rparr>]"
  shows "flags_clear s'"
proof (cases "i < length (data (entities s))")
  case True
  then have "flags (data (entities s) ! i) = 0" using assms(1) by (simp add: flags_clear_def)
  then have "flags ((data (entities s) ! i)\<lparr>components := c\<rparr>) = 0"
    by (simp add: flags_components_update)
  with assms(1) show ?thesis using assms(2) by (rule flags_clear_update)
next
  case False
  then have "data (entities s') = data (entities s)" using assms(2)
    by (simp add: list_update_beyond)
  with assms(1) show ?thesis by (rule flags_clear_same)
qed

lemma newEntity_data:
  "newEntity s = Inr (s', h) \<Longrightarrow>
   data (entities s') = (data (entities s))[unat (entityIndex h) :=
     createEntityData (generation (data (entities s) ! unat (entityIndex h)))]"
  by (auto simp: newEntity_def newEntityFromPool_def Let_def entityIndex_createHandle
      split: if_splits sum.splits prod.splits)

lemma flags_clear_newEntity: "newEntity s = Inr (s', h) \<Longrightarrow> flags_clear s \<Longrightarrow> flags_clear s'"
  using flags_clear_update [OF _ flags_createEntityData] by (blast dest: newEntity_data)

lemma flags_clear_newEntityWithArchetype:
  assumes "newEntityWithArchetype s a = Inr (s', h)" and "flags_clear s"
  shows "flags_clear s'"
proof -
  from assms(1) obtain t where t: "newEntity s = Inr (t, h)"
    and d: "data (entities s') = (data (entities t))
         [unat (entityIndex h) := (data (entities t) ! unat (entityIndex h))\<lparr>components := a\<rparr>]"
    by (auto simp: newEntityWithArchetype_def Let_def split: sum.splits prod.splits if_splits)
  from t assms(2) have "flags_clear t" by (rule flags_clear_newEntity)
  then show ?thesis using d by (rule flags_clear_set_components)
qed

lemma destroyEntity_data:
  "destroyEntity s e = Inr s' \<Longrightarrow>
   data (entities s') = data (entities s) \<or>
   data (entities s') = (data (entities s))[unat (entityIndex e) :=
     createEntityData (word_of_int (uint (entityGen e) + 1))]"
  by (auto simp: destroyEntity_def returnEntityToPool_def Let_def split: if_splits sum.splits)

lemma flags_clear_destroyEntity:
  "destroyEntity s e = Inr s' \<Longrightarrow> flags_clear s \<Longrightarrow> flags_clear s'"
  using flags_clear_update [OF _ flags_createEntityData] flags_clear_same
  by (blast dest: destroyEntity_data)

lemma addComponentID_data:
  "addComponentID s e c = Inr (s', p) \<Longrightarrow>
   data (entities s') = (data (entities s))[unat (entityIndex e) :=
     (data (entities s) ! unat (entityIndex e))\<lparr>components :=
        components (data (entities s) ! unat (entityIndex e)) OR push_bit (unat c) 1\<rparr>]"
  by (auto simp: addComponentID_def Let_def split: if_splits sum.splits)

lemma flags_clear_addComponentID:
  "addComponentID s e c = Inr (s', p) \<Longrightarrow> flags_clear s \<Longrightarrow> flags_clear s'"
  using flags_clear_set_components by (blast dest: addComponentID_data)

lemma getComponentID_same: "getComponentID s e c = Inr (s', p) \<Longrightarrow> s' = s"
  by (auto simp: getComponentID_def Let_def split: if_splits sum.splits)

lemma flags_clear_getComponentID:
  "getComponentID s e c = Inr (s', p) \<Longrightarrow> flags_clear s \<Longrightarrow> flags_clear s'"
  by (drule getComponentID_same) simp

lemma removeComponentID_data:
  "removeComponentID s e c = Inr s' \<Longrightarrow>
   data (entities s') = (data (entities s))[unat (entityIndex e) :=
     (data (entities s) ! unat (entityIndex e))\<lparr>components :=
        components (data (entities s) ! unat (entityIndex e)) AND NOT (push_bit (unat c) 1)\<rparr>]"
  by (auto simp: removeComponentID_def Let_def split: if_splits sum.splits)

lemma flags_clear_removeComponentID:
  "removeComponentID s e c = Inr s' \<Longrightarrow> flags_clear s \<Longrightarrow> flags_clear s'"
  using flags_clear_set_components by (blast dest: removeComponentID_data)

lemma ecsDeclareComponent_entities:
  "ecsDeclareComponent s n sz = Inr (s', k) \<Longrightarrow> entities s' = entities s"
  by (auto simp: ecsDeclareComponent_def Let_def split: if_splits sum.splits)

lemma flags_clear_ecsDeclareComponent:
  "ecsDeclareComponent s n sz = Inr (s', k) \<Longrightarrow> flags_clear s \<Longrightarrow> flags_clear s'"
  by (drule ecsDeclareComponent_entities) (simp add: flags_clear_def)

lemma newSystem_entities: "newSystem s m it ud = Inr (s', k) \<Longrightarrow> entities s' = entities s"
  by (auto simp: newSystem_def split: if_splits)

lemma flags_clear_newSystem:
  "newSystem s m it ud = Inr (s', k) \<Longrightarrow> flags_clear s \<Longrightarrow> flags_clear s'"
  by (drule newSystem_entities) (simp add: flags_clear_def)

lemma destroySystem_entities: "destroySystem s k = Inr s' \<Longrightarrow> entities s' = entities s"
  by (auto simp: destroySystem_def Let_def split: if_splits sum.splits option.splits)

lemma flags_clear_destroySystem:
  "destroySystem s k = Inr s' \<Longrightarrow> flags_clear s \<Longrightarrow> flags_clear s'"
  by (drule destroySystem_entities) (simp add: flags_clear_def)

lemma matchEntities_loop_preserves:
  assumes cb: "\<forall>f g a e u v a' v'. code f = Some g \<longrightarrow> g a e u v = Inr (a', v') \<longrightarrow> P a \<longrightarrow> P a'"
  shows "matchEntities_loop code m it ud ids s w = Inr (s', w') \<Longrightarrow> P s \<Longrightarrow> P s'"
proof (induction ids arbitrary: s w)
  case Nil
  then show ?case by simp
next
  case (Cons i ids)
  show ?case
  proof (cases "flags (data (entities s) ! i) AND kEntityUnused = 0 \<and>
      components (data (entities s) ! i) AND m = m")
    case False
    then have "matchEntities_loop code m it ud ids s w = Inr (s', w')"
      using Cons.prems(1) by (auto simp: Let_def split: if_splits)
    then show ?thesis using Cons.IH Cons.prems(2) by blast
  next
    case True
    then obtain t v where
      c: "call_iterator code it s (createHandle (of_nat i) (generation (data (entities s) ! i))) ud w
          = Inr (t, v)"
      and r: "matchEntities_loop code m it ud ids t v = Inr (s', w')"
      using Cons.prems(1) by (auto simp: Let_def split: sum.splits if_splits)
    from c obtain g where "code it = Some g"
      "g s (createHandle (of_nat i) (generation (data (entities s) ! i))) ud w = Inr (t, v)"
      by (auto simp: call_iterator_def split: option.splits)
    then have "P t" using cb Cons.prems(2) by blast
    then show ?thesis using Cons.IH r by blast
  qed
qed

lemma matchEntities_preserves:
  assumes "\<forall>f g a e u v a' v'. code f = Some g \<longrightarrow> g a e u v = Inr (a', v') \<longrightarrow> P a \<longrightarrow> P a'"
    and "matchEntities code s m it ud w = Inr (s', w')" and "P s"
  shows "P s'"
  using matchEntities_loop_preserves [OF assms(1)] assms(2,3)
  unfolding matchEntities_def by blast

lemma ecsTick_from_preserves:
  assumes cb: "\<forall>f g a e u v a' v'. code f = Some g \<longrightarrow> g a e u v = Inr (a', v') \<longrightarrow> P a \<longrightarrow> P a'"
  shows "ecsTick_from code i s w = Inr (s', w') \<Longrightarrow> P s \<Longrightarrow> P s'"
  using cb
proof (induction code i s w rule: ecsTick_from.induct)
  case (1 code i ecs w)
  show ?case
  proof (cases "i < unat (systemCount ecs)")
    case False
    then show ?thesis using "1.prems" by (subst (asm) ecsTick_from.simps) simp
  next
    case True
    from "1.prems"(1) True obtain t v where
      len: "i < length (systems ecs)" and
      m: "matchEntities code ecs (mask_sys (systems ecs ! i)) (func (systems ecs ! i))
            (userData (systems ecs ! i)) w = Inr (t, v)" and
      r: "ecsTick_from code (i + 1) t v = Inr (s', w')"
      by (subst (asm) ecsTick_from.simps) (auto split: if_splits sum.splits)
    have "P t" using matchEntities_preserves [OF "1.prems"(3) m "1.prems"(2)] .
    from "1.IH" [OF True len m refl r this "1.prems"(3)] show ?thesis .
  qed
qed

lemma api_flags_clear: "api code s t \<Longrightarrow> flags_clear s \<longrightarrow> flags_clear t"
proof (induction rule: api.induct)
  case (api_matchEntities s t m it ud w t' w')
  have cb: "\<forall>f g a e u v a' v'. code f = Some g \<longrightarrow> g a e u v = Inr (a', v') \<longrightarrow>
      flags_clear a \<longrightarrow> flags_clear a'"
    using api_matchEntities.IH(2) by blast
  show ?case using matchEntities_preserves [OF cb api_matchEntities.hyps(2)] api_matchEntities.IH(1)
    by blast
next
  case (api_ecsTick s t w t' w')
  have cb: "\<forall>f g a e u v a' v'. code f = Some g \<longrightarrow> g a e u v = Inr (a', v') \<longrightarrow>
      flags_clear a \<longrightarrow> flags_clear a'"
    using api_ecsTick.IH(2) by blast
  show ?case
    using ecsTick_from_preserves [OF cb api_ecsTick.hyps(2) [unfolded ecsTick_def]]
      api_ecsTick.IH(1)
    by blast
qed (auto dest: flags_clear_newEntity flags_clear_newEntityWithArchetype
     flags_clear_destroyEntity flags_clear_addComponentID flags_clear_getComponentID
     flags_clear_removeComponentID flags_clear_ecsDeclareComponent flags_clear_newSystem
     flags_clear_destroySystem)

subsection \<open>Component descriptors are never overwritten\<close>












lemma comps_assigned_newECS: "comps_assigned (newECS junk)"
  by (simp add: comps_assigned_def newECS_def)

lemma comps_assigned_newEntity:
  "newEntity s = Inr (s', h) \<Longrightarrow> comps_assigned s \<Longrightarrow> comps_assigned s'"
  by (auto simp: newEntity_def newEntityFromPool_def Let_def comps_assigned_def
      split: if_splits sum.splits prod.splits)

lemma comps_assigned_set_components:
  "comps_assigned (set_components s i m) = comps_assigned s"
  by (simp add: comps_assigned_def set_components_def)

lemma comps_assigned_newEntityWithArchetype:
  assumes "newEntityWithArchetype s a = Inr (s', h)" and "comps_assigned s"
  shows "comps_assigned s'"
proof -
  from assms(1) obtain t where t: "newEntity s = Inr (t, h)"
    and s': "s' = set_components t (unat (entityIndex h)) a"
    by (auto simp: newEntityWithArchetype_def Let_def set_components_def
        split: sum.splits prod.splits if_splits)
  from t assms(2) have "comps_assigned t" by (rule comps_assigned_newEntity)
  then show ?thesis by (simp add: s' comps_assigned_set_components)
qed

lemma comps_assigned_destroyEntity:
  "destroyEntity s e = Inr s' \<Longrightarrow> comps_assigned s \<Longrightarrow> comps_assigned s'"
  by (auto simp: destroyEntity_def returnEntityToPool_def Let_def comps_assigned_def
      split: if_splits sum.splits)

lemma comps_assigned_addComponentID:
  "addComponentID s e c = Inr (s', p) \<Longrightarrow> comps_assigned s \<Longrightarrow> comps_assigned s'"
  by (auto simp: addComponentID_def Let_def comps_assigned_def split: if_splits sum.splits)

lemma comps_assigned_getComponentID:
  "getComponentID s e c = Inr (s', p) \<Longrightarrow> comps_assigned s \<Longrightarrow> comps_assigned s'"
  by (drule getComponentID_same) simp

lemma comps_assigned_removeComponentID:
  "removeComponentID s e c = Inr s' \<Longrightarrow> comps_assigned s \<Longrightarrow> comps_assigned s'"
  by (auto simp: removeComponentID_def Let_def comps_assigned_def split: if_splits sum.splits)

lemma comps_assigned_newSystem:
  "newSystem s m it ud = Inr (s', j) \<Longrightarrow> comps_assigned s \<Longrightarrow> comps_assigned s'"
  by (auto simp: newSystem_def comps_assigned_def split: if_splits)

lemma comps_assigned_destroySystem:
  "destroySystem s j = Inr s' \<Longrightarrow> comps_assigned s \<Longrightarrow> comps_assigned s'"
  by (auto simp: destroySystem_def Let_def comps_assigned_def
      split: if_splits sum.splits option.splits)

lemma comps_assigned_declared:
  assumes "comps_assigned s" and "unat (compDataCount s) < ECS_MAX_COMPS"
    and "unat (compDataCount s) < length (compData s)"
  shows "comps_assigned (declared s m sz)"
proof -
  have cnt: "unat (compDataCount (declared s m sz)) = unat (compDataCount s) + 1"
    using assms(2) by (simp add: declared_def unat_word_ariths ECS_MAX_COMPS_def)
  have len: "length (compData (declared s m sz)) = length (compData s)"
    by (simp add: declared_def)
  show ?thesis
    unfolding comps_assigned_def cnt len
  proof (intro allI impI)
    fix k assume k: "k < unat (compDataCount s) + 1"
    show "k < length (compData s) \<and> (\<exists>c. compData (declared s m sz) ! k = Some c)"
    proof (cases "k = unat (compDataCount s)")
      case True
      then show ?thesis using assms(3) by (simp add: declared_def)
    next
      case False
      then have "k < unat (compDataCount s)" using k by simp
      then show ?thesis using assms(1) False by (simp add: comps_assigned_def declared_def)
    qed
  qed
qed

lemma comps_assigned_ecsDeclareComponent:
  assumes "ecsDeclareComponent s m sz = Inr (s', k)" and "comps_assigned s"
  shows "comps_assigned s'"
  using declare_cases [OF assms(1)] assms(2) comps_assigned_declared by blast

lemma api_comps_assigned: "api code s t \<Longrightarrow> comps_assigned s \<longrightarrow> comps_assigned t"
proof (induction rule: api.induct)
  case (api_matchEntities s t m it ud w t' w')
  have cb: "\<forall>f g a e u v a' v'. code f = Some g \<longrightarrow> g a e u v = Inr (a', v') \<longrightarrow>
      comps_assigned a \<longrightarrow> comps_assigned a'"
    using api_matchEntities.IH(2) by blast
  show ?case using matchEntities_preserves [OF cb api_matchEntities.hyps(2)] api_matchEntities.IH(1)
    by blast
next
  case (api_ecsTick s t w t' w')
  have cb: "\<forall>f g a e u v a' v'. code f = Some g \<longrightarrow> g a e u v = Inr (a', v') \<longrightarrow>
      comps_assigned a \<longrightarrow> comps_assigned a'"
    using api_ecsTick.IH(2) by blast
  show ?case
    using ecsTick_from_preserves [OF cb api_ecsTick.hyps(2) [unfolded ecsTick_def]]
      api_ecsTick.IH(1)
    by blast
qed (auto dest: comps_assigned_newEntity comps_assigned_newEntityWithArchetype
     comps_assigned_destroyEntity comps_assigned_addComponentID comps_assigned_getComponentID
     comps_assigned_removeComponentID comps_assigned_ecsDeclareComponent comps_assigned_newSystem
     comps_assigned_destroySystem)

text \<open>In a registry that API calls lead to from \<open>newECS\<close>, the registered IDs, those below
  \<open>compDataCount\<close>, are the ones whose pointer has been assigned.\<close>

lemma registered_ids_assigned:
  assumes "api code (newECS junk) s" and "unat X < unat (compDataCount s)"
  shows "\<exists>c. unat X < length (compData s) \<and> compData s ! unat X = Some c"
proof -
  have "comps_assigned s" using api_comps_assigned [OF assms(1)] comps_assigned_newECS by blast
  then show ?thesis using assms(2) by (simp add: comps_assigned_def)
qed

subsection \<open>What the matcher visits\<close>

lemma call_recorder: "call_iterator recorder visit_fn s e ud seen = Inr (s, seen @ [e])"
  by (simp add: call_iterator_def recorder_def record_visit_def)

lemma match_recorder_loop:
  assumes "flags_clear s"
  shows "\<forall>i \<in> set ids. i < ECS_MAX_ENTITIES \<Longrightarrow>
    matchEntities_loop recorder m visit_fn ud ids s seen =
      Inr (s, seen @ map (handle_of_slot s)
        (filter (\<lambda>i. components (data (entities s) ! i) AND m = m) ids))"
proof (induction ids arbitrary: seen)
  case Nil
  then show ?case by simp
next
  case (Cons i ids)
  have i: "i < length (data (entities s))" using Cons.prems assms by (simp add: flags_clear_def)
  then have "flags (data (entities s) ! i) = 0" using assms by (simp add: flags_clear_def)
  then have f: "flags (data (entities s) ! i) AND kEntityUnused = 0" by simp
  have rest: "\<And>seen. matchEntities_loop recorder m visit_fn ud ids s seen =
      Inr (s, seen @ map (handle_of_slot s)
        (filter (\<lambda>i. components (data (entities s) ! i) AND m = m) ids))"
    using Cons.IH Cons.prems by simp
  show ?case
    using i f by (simp add: rest Let_def call_recorder handle_of_slot_def)
qed

lemma match_recorder:
  "flags_clear s \<Longrightarrow>
   matchEntities recorder s m visit_fn ud seen =
     Inr (s, seen @ map (handle_of_slot s) (matching_slots s m))"
  by (simp add: matchEntities_def matching_slots_def match_recorder_loop)

lemma freeList_fresh:
  "freeList (entities fresh) = map (\<lambda>i. of_nat (ECS_MAX_ENTITIES - (i + 1))) [0..<ECS_MAX_ENTITIES]"
  "unat (freeCount (entities fresh)) = ECS_MAX_ENTITIES"
  by (simp_all add: fresh_def newECS_def initEntityPool_def ECS_MAX_ENTITIES_def)

lemma all_slots_free:
  assumes "i < ECS_MAX_ENTITIES"
  shows "(of_nat i :: Index) \<in> set (take (unat (freeCount (entities fresh))) (freeList (entities fresh)))"
proof -
  let ?f = "\<lambda>k. (of_nat (ECS_MAX_ENTITIES - (k + 1)) :: Index)"
  have "ECS_MAX_ENTITIES - (i + 1) \<in> set [0..<ECS_MAX_ENTITIES]" using assms by simp
  moreover have "?f (ECS_MAX_ENTITIES - (i + 1)) = of_nat i" using assms by simp
  ultimately have "of_nat i \<in> ?f ` set [0..<ECS_MAX_ENTITIES]" by (metis imageI)
  then show ?thesis by (simp add: freeList_fresh)
qed

lemma live_slots_fresh: "live_slots fresh = []"
  by (auto simp: live_slots_def filter_empty_conv intro: all_slots_free)

lemma matching_fresh: "matching_slots fresh 0 = [0..<ECS_MAX_ENTITIES]"
  by (simp add: matching_slots_def)

lemma handles_fresh:
  "map (handle_of_slot fresh) [0..<ECS_MAX_ENTITIES] =
   map (\<lambda>i. createHandle (of_nat i) 0) [0..<ECS_MAX_ENTITIES]"
  by (rule map_cong)
     (simp_all add: handle_of_slot_def fresh_def newECS_def initEntityPool_def generation_def)

subsection \<open>More concrete registries\<close>

lemma declare_position: "ecsDeclareComponent fresh ''Position'' 8 = Inr (with_position, 0)"
  by (simp add: ecsDeclareComponent_def ecsComponentID_def ecsComponentID_from.simps
      with_position_def position_data_def fresh_def newECS_def ECS_MAX_COMPS_def Let_def)



lemma newEntity_with_position: "newEntity with_position = Inr (one_of_two, 0)"
  by (simp add: newEntity_def newEntityFromPool_def fresh_def newECS_def initEntityPool_def
      with_position_def one_of_two_def ECS_MAX_ENTITIES_def Let_def generation_def
      createHandle_def createEntityData_def)

lemma newEntity_one_of_two: "newEntity one_of_two = Inr (two_entities, 1)"
  by (simp add: newEntity_def newEntityFromPool_def fresh_def newECS_def initEntityPool_def
      with_position_def one_of_two_def two_entities_def ECS_MAX_ENTITIES_def Let_def
      generation_def createHandle_def createEntityData_def)

lemma valid_two_entities:
  "isEntityValid two_entities 0 = Inr True" "isEntityValid two_entities 1 = Inr True"
  by (simp_all add: isEntityValid_def entityIndex_def entityGen_def fresh_def newECS_def
      initEntityPool_def with_position_def two_entities_def ECS_MAX_ENTITIES_def Let_def
      generation_def createEntityData_def)

lemma compData_two_entities:
  "length (compData two_entities) = ECS_MAX_COMPS" "compData two_entities ! 0 = Some position_data"
  "compData two_entities \<noteq> []"
  by (simp_all add: fresh_def newECS_def with_position_def two_entities_def ECS_MAX_COMPS_def)

lemma systems_fresh: "length (systems fresh) = ECS_MAX_SYSTEMS"
  by (simp add: fresh_def newECS_def blank_systems_def)

subsection \<open>Attaching, reading and removing a component\<close>

lemma addComponentID_then_get:
  assumes "isEntityValid s e = Inr True" and "unat X < ECS_MAX_COMPS"
    and add: "addComponentID s e X = Inr (s', p)"
  shows "p \<noteq> NULL" and "isEntityValid s' e = Inr True"
    and "getComponentID s' e X = Inr (s', p)"
    and "bit (components (data (entities s') ! unat (entityIndex e))) (unat X)"
proof -
  let ?i = "unat (entityIndex e)"
  let ?c = "components (data (entities s) ! ?i)"
  have r: "?i < length (data (entities s))" using assms(1) by (rule isEntityValid_in_range)
  have n8: "unat X < 8" using assms(2) by (simp add: ECS_MAX_COMPS_def)
  note s' = addComponentID_state [OF assms(1,2) add]
  note p = addComponentID_result(2) [OF assms(1,2) add]
  show "p \<noteq> NULL" using p by (rule storageAddress_not_NULL)
  show v': "isEntityValid s' e = Inr True"
    using assms(1) by (simp add: s' isEntityValid_set_components)
  have "compData s' = compData s" by (simp add: s' set_components_simps)
  then have "storageAddress s' X = storageAddress s X" by (rule storageAddress_cong)
  then have p': "storageAddress s' X = Inr p" using p by simp
  have c': "components (data (entities s') ! ?i) = ?c OR push_bit (unat X) 1"
    using r by (simp add: s' set_components_simps)
  show "getComponentID s' e X = Inr (s', p)"
    using set_bit_test [OF n8, of ?c] by (simp add: getComponentID_unfold [OF v' assms(2)] c' p')
  show "bit (components (data (entities s') ! ?i)) (unat X)"
    using n8 bit_set_bit [of "unat X" ?c "unat X"] by (simp add: c')
qed

lemma addComponentID_returns:
  assumes "isEntityValid s e = Inr True" and "unat X < ECS_MAX_COMPS"
    and "\<exists>c. unat X < length (compData s) \<and> compData s ! unat X = Some c"
  shows "\<exists>s' p. addComponentID s e X = Inr (s', p)"
  using assms by (auto simp: addComponentID_def Let_def storageAddress_def)

lemma removeComponentID_frame:
  assumes "isEntityValid s e = Inr True" and "unat X < ECS_MAX_COMPS"
  shows "\<exists>t. removeComponentID s e X = Inr t \<and> isEntityValid t e = Inr True \<and>
            getComponentID t e X = Inr (t, NULL) \<and>
            compData t = compData s \<and> t\<lparr>entities := entities s\<rparr> = s \<and>
            (entities t)\<lparr>data := data (entities s)\<rparr> = entities s \<and>
            length (data (entities t)) = length (data (entities s)) \<and>
            (\<forall>j. j \<noteq> unat (entityIndex e) \<longrightarrow> data (entities t) ! j = data (entities s) ! j) \<and>
            info (data (entities t) ! unat (entityIndex e)) =
              info (data (entities s) ! unat (entityIndex e)) \<and>
            (\<forall>k. bit (components (data (entities t) ! unat (entityIndex e))) k =
                (bit (components (data (entities s) ! unat (entityIndex e))) k \<and> k \<noteq> unat X))"
proof -
  let ?i = "unat (entityIndex e)"
  let ?c = "components (data (entities s) ! ?i)"
  have r: "?i < length (data (entities s))" using assms(1) by (rule isEntityValid_in_range)
  define t where "t = set_components s ?i (?c AND NOT (push_bit (unat X) 1))"
  have rem: "removeComponentID s e X = Inr t"
    using removeComponentID_state [OF assms] by (simp add: t_def)
  have vt: "isEntityValid t e = Inr True"
    using assms(1) by (simp add: t_def isEntityValid_set_components)
  have ct: "components (data (entities t) ! ?i) = ?c AND NOT (push_bit (unat X) 1)"
    using r by (simp add: t_def set_components_simps)
  have gt: "getComponentID t e X = Inr (t, NULL)"
    using clear_bit_test [of ?c "unat X"] by (simp add: getComponentID_unfold [OF vt assms(2)] ct)
  have frame: "compData t = compData s" "t\<lparr>entities := entities s\<rparr> = s"
    "(entities t)\<lparr>data := data (entities s)\<rparr> = entities s"
    "length (data (entities t)) = length (data (entities s))"
    "\<And>j. j \<noteq> ?i \<Longrightarrow> data (entities t) ! j = data (entities s) ! j"
    "info (data (entities t) ! ?i) = info (data (entities s) ! ?i)"
    using r by (simp_all add: t_def set_components_simps)
  have bits: "\<And>k. bit (components (data (entities t) ! ?i)) k = (bit ?c k \<and> k \<noteq> unat X)"
    using bit_clear_bit [of ?c "unat X"] by (simp add: ct)
  show ?thesis
  proof (intro exI [of _ t] conjI allI impI)
    show "removeComponentID s e X = Inr t" by (rule rem)
    show "isEntityValid t e = Inr True" by (rule vt)
    show "getComponentID t e X = Inr (t, NULL)" by (rule gt)
    show "compData t = compData s" by (rule frame)
    show "t\<lparr>entities := entities s\<rparr> = s" by (rule frame)
    show "(entities t)\<lparr>data := data (entities s)\<rparr> = entities s" by (rule frame)
    show "length (data (entities t)) = length (data (entities s))" by (rule frame)
    show "data (entities t) ! j = data (entities s) ! j" if "j \<noteq> ?i" for j
      using that by (rule frame)
    show "info (data (entities t) ! ?i) = info (data (entities s) ! ?i)" by (rule frame)
    show "bit (components (data (entities t) ! ?i)) k = (bit ?c k \<and> k \<noteq> unat X)" for k
      by (rule bits)
  qed
qed

subsection \<open>Claims about components\<close>

text \<open>
  C1. The claim: the pointer \<open>addComponentID\<close> returns is the storage slice of the entity's
  slot, base plus \<open>entityIndex(e)\<close> times the element size, so that entities in distinct slots
  get distinct addresses. The code computes the offset from \<open>compID\<close>, not from the slot index
  it has just read into \<open>id\<close>. Evaluated on the registry of \<open>example.c\<close>: \<open>Position\<close>
  (8 bytes) is declared and gets ID 0, two entities are created in slots 0 and 1, and
  \<open>addComponentID\<close> returns the address at offset 0 of the block for both, where the claim
  puts the second entity at offset 8.
\<close>

theorem addComponentID_same_address:
  "ecsDeclareComponent fresh ''Position'' 8 = Inr (with_position, 0) \<and>
   newEntity with_position = Inr (one_of_two, 0) \<and>
   newEntity one_of_two = Inr (two_entities, 1) \<and>
   entityIndex 0 = 0 \<and> entityIndex 1 = 1 \<and>
   map_sum id snd (addComponentID two_entities 0 0) = Inr (Ptr 0 0) \<and>
   map_sum id snd (addComponentID two_entities 1 0) = Inr (Ptr 0 (0 * 8))"
proof -
  have "map_sum id snd (addComponentID two_entities 0 0) = Inr (Ptr 0 0)"
    by (simp add: addComponentID_def valid_two_entities storageAddress_def
        compData_two_entities position_data_def ECS_MAX_COMPS_def Let_def)
  moreover have "map_sum id snd (addComponentID two_entities 1 0) = Inr (Ptr 0 0)"
    by (simp add: addComponentID_def valid_two_entities storageAddress_def
        compData_two_entities position_data_def ECS_MAX_COMPS_def Let_def)
  moreover have "entityIndex 0 = 0" "entityIndex 1 = 1" by (simp_all add: entityIndex_def)
  ultimately show ?thesis
    by (simp add: declare_position newEntity_with_position newEntity_one_of_two)
qed

text \<open>
  C6. The claim covers every component ID below \<open>ECS_MAX_COMPS\<close>. For an ID in that range
  that was never registered, \<open>addComponentID\<close> passes both assertions, sets the membership
  bit and then reads \<open>size\<close> through the pointer \<open>compData[compID]\<close> that nothing has
  assigned: it returns no pointer that a later \<open>getComponentID\<close> could return again. The
  first entity of a fresh registry and the ID 3 show it.
\<close>

theorem attach_unregistered_counterexample:
  "newEntity fresh = Inr (one_entity, 0) \<and> isEntityValid one_entity 0 = Inr True \<and>
   unat (3 :: ECSID) < ECS_MAX_COMPS \<and>
   addComponentID one_entity 0 3 = Inl UndefinedBehaviour"
proof -
  have v: "isEntityValid one_entity 0 = Inr True"
    using newEntity_fresh by (rule newEntity_valid)
  have "compData one_entity = replicate ECS_MAX_COMPS None"
    by (simp add: one_entity_def fresh_def newECS_def)
  then have "storageAddress (set_components one_entity i m) 3 = Inl UndefinedBehaviour" for i m
    by (simp add: storageAddress_def set_components_def ECS_MAX_COMPS_def)
  then have "addComponentID one_entity 0 3 = Inl UndefinedBehaviour"
    using v by (simp add: addComponentID_def Let_def ECS_MAX_COMPS_def set_components_def)
  then show ?thesis using v newEntity_fresh by (simp add: ECS_MAX_COMPS_def)
qed

text \<open>
  C6, amended to registered IDs. For a valid handle \<open>e\<close> and a component ID \<open>X\<close> below
  \<open>ECS_MAX_COMPS\<close> whose pointer \<open>compData[X]\<close> has been assigned (in a registry reached
  from \<open>newECS\<close>, an ID below \<open>compDataCount\<close>: \<open>registered_ids_assigned\<close>):
  \<open>addComponentID\<close> returns, its pointer is not \<open>NULL\<close>, the handle is still valid,
  \<open>getComponentID\<close> returns that same pointer, bit \<open>X\<close> of the entity's membership mask is
  set, and after \<open>removeComponentID\<close> on that registry \<open>getComponentID\<close> returns \<open>NULL\<close>.
  For every \<open>X\<close> below \<open>ECS_MAX_COMPS\<close>, registered or not, \<open>removeComponentID\<close> returns,
  \<open>getComponentID\<close> then returns \<open>NULL\<close>, and the registries before and after differ in
  nothing but bit \<open>X\<close> of that one membership mask: the component blocks, every other field
  of the registry, every other slot, the slot's \<open>info\<close> and all its other membership bits
  are as before.
\<close>

theorem attach_get_remove:
  assumes "isEntityValid s e = Inr True" and "unat X < ECS_MAX_COMPS"
  shows "((\<exists>c. unat X < length (compData s) \<and> compData s ! unat X = Some c) \<longrightarrow>
            (\<exists>s' p. addComponentID s e X = Inr (s', p) \<and> p \<noteq> NULL \<and>
               isEntityValid s' e = Inr True \<and> getComponentID s' e X = Inr (s', p) \<and>
               bit (components (data (entities s') ! unat (entityIndex e))) (unat X) \<and>
               (\<exists>t. removeComponentID s' e X = Inr t \<and> getComponentID t e X = Inr (t, NULL)))) \<and>
         (\<exists>t. removeComponentID s e X = Inr t \<and> isEntityValid t e = Inr True \<and>
            getComponentID t e X = Inr (t, NULL) \<and>
            compData t = compData s \<and> t\<lparr>entities := entities s\<rparr> = s \<and>
            (entities t)\<lparr>data := data (entities s)\<rparr> = entities s \<and>
            length (data (entities t)) = length (data (entities s)) \<and>
            (\<forall>j. j \<noteq> unat (entityIndex e) \<longrightarrow> data (entities t) ! j = data (entities s) ! j) \<and>
            info (data (entities t) ! unat (entityIndex e)) =
              info (data (entities s) ! unat (entityIndex e)) \<and>
            (\<forall>k. bit (components (data (entities t) ! unat (entityIndex e))) k =
                (bit (components (data (entities s) ! unat (entityIndex e))) k \<and> k \<noteq> unat X)))"
proof (rule conjI [OF impI])
  assume "\<exists>c. unat X < length (compData s) \<and> compData s ! unat X = Some c"
  with assms obtain s' p where add: "addComponentID s e X = Inr (s', p)"
    using addComponentID_returns by blast
  note g = addComponentID_then_get [OF assms add]
  from removeComponentID_frame [OF g(2) assms(2)]
  have "\<exists>t. removeComponentID s' e X = Inr t \<and> getComponentID t e X = Inr (t, NULL)"
    by blast
  with add g
  show "\<exists>s' p. addComponentID s e X = Inr (s', p) \<and> p \<noteq> NULL \<and>
               isEntityValid s' e = Inr True \<and> getComponentID s' e X = Inr (s', p) \<and>
               bit (components (data (entities s') ! unat (entityIndex e))) (unat X) \<and>
               (\<exists>t. removeComponentID s' e X = Inr t \<and> getComponentID t e X = Inr (t, NULL))"
    by blast
next
  show "\<exists>t. removeComponentID s e X = Inr t \<and> isEntityValid t e = Inr True \<and>
            getComponentID t e X = Inr (t, NULL) \<and>
            compData t = compData s \<and> t\<lparr>entities := entities s\<rparr> = s \<and>
            (entities t)\<lparr>data := data (entities s)\<rparr> = entities s \<and>
            length (data (entities t)) = length (data (entities s)) \<and>
            (\<forall>j. j \<noteq> unat (entityIndex e) \<longrightarrow> data (entities t) ! j = data (entities s) ! j) \<and>
            info (data (entities t) ! unat (entityIndex e)) =
              info (data (entities s) ! unat (entityIndex e)) \<and>
            (\<forall>k. bit (components (data (entities t) ! unat (entityIndex e))) k =
                (bit (components (data (entities s) ! unat (entityIndex e))) k \<and> k \<noteq> unat X))"
    using assms by (rule removeComponentID_frame)
qed

theorem attach_get_remove_witness:
  "(\<exists>s' p. addComponentID two_entities 0 0 = Inr (s', p) \<and> p \<noteq> NULL \<and>
       getComponentID s' 0 0 = Inr (s', p) \<and>
       (\<exists>t. removeComponentID s' 0 0 = Inr t \<and> getComponentID t 0 0 = Inr (t, NULL))) \<and>
   (\<exists>t. removeComponentID two_entities 0 0 = Inr t \<and> getComponentID t 0 0 = Inr (t, NULL))"
proof -
  have x: "unat (0 :: ECSID) < ECS_MAX_COMPS" by (simp add: ECS_MAX_COMPS_def)
  note t = attach_get_remove [OF valid_two_entities(1) x]
  have c: "\<exists>c. unat (0 :: ECSID) < length (compData two_entities) \<and>
      compData two_entities ! unat (0 :: ECSID) = Some c"
    using compData_two_entities by (simp add: ECS_MAX_COMPS_def)
  from t c have "\<exists>s' p. addComponentID two_entities 0 0 = Inr (s', p) \<and> p \<noteq> NULL \<and>
       getComponentID s' 0 0 = Inr (s', p) \<and>
       (\<exists>t. removeComponentID s' 0 0 = Inr t \<and> getComponentID t 0 0 = Inr (t, NULL))"
    by blast
  moreover from t have
    "\<exists>u. removeComponentID two_entities 0 0 = Inr u \<and> getComponentID u 0 0 = Inr (u, NULL)"
    by blast
  ultimately show ?thesis by blast
qed

text \<open>
  C10. \<open>isEntityValid\<close> takes a \<open>const ECS *\<close> and is a function from the registry to its
  answer: it has no registry to hand back. \<open>getComponentID\<close> takes an \<open>ECS *\<close>; for a valid
  handle and a component ID below \<open>ECS_MAX_COMPS\<close>, whenever it returns, the registry it
  leaves is the registry it was given, in every field; and it does return when the pointer
  \<open>compData[X]\<close> has been assigned.
\<close>

theorem reads_are_pure:
  assumes "isEntityValid s e = Inr True" and "unat X < ECS_MAX_COMPS"
  shows "(\<forall>s' p. getComponentID s e X = Inr (s', p) \<longrightarrow> s' = s) \<and>
         ((\<exists>c. unat X < length (compData s) \<and> compData s ! unat X = Some c) \<longrightarrow>
            (\<exists>p. getComponentID s e X = Inr (s, p)))"
  using assms
  by (auto simp: getComponentID_def Let_def storageAddress_def
      split: sum.splits if_splits option.splits)

theorem reads_are_pure_witness:
  "\<exists>p. getComponentID two_entities 0 0 = Inr (two_entities, p)"
proof -
  have x: "unat (0 :: ECSID) < ECS_MAX_COMPS" by (simp add: ECS_MAX_COMPS_def)
  have "\<exists>c. unat (0 :: ECSID) < length (compData two_entities) \<and>
      compData two_entities ! unat (0 :: ECSID) = Some c"
    using compData_two_entities by (simp add: ECS_MAX_COMPS_def)
  with reads_are_pure [OF valid_two_entities(1) x] show ?thesis by blast
qed



subsection \<open>Claims about systems\<close>

text \<open>
  C3. The claim: \<open>newSystem\<close> returns the identifier of the entry it appended. The code ends
  in \<open>return 0\<close>. Registering two systems on a fresh registry returns 0 both times, while
  the second entry was given the identifier 1.
\<close>

theorem newSystem_returns_zero:
  "newSystem fresh 1 visit_fn 0 = Inr (one_system, 0) \<and>
   newSystem one_system 2 visit_fn 0 = Inr (two_systems, 0) \<and>
   id_sys (systems two_systems ! 1) = 1"
  by (simp add: newSystem_def one_system_def two_systems_def systems_fresh visit_fn_def
      ECS_MAX_SYSTEMS_def)
     (simp add: fresh_def newECS_def)

text \<open>
  C4. The claim: \<open>destroySystem\<close> removes the entry with the given identifier and shifts the
  later entries down. The code calls \<open>memmove(begin, sys, ...)\<close> with \<open>begin = sys + 1\<close>:
  it copies the found entry and its successors one place up. In a table holding the systems
  0 and 1, \<open>destroySystem\<close> of 0 leaves one system, and it is system 0; system 1 is gone.
\<close>

theorem destroySystem_keeps_target:
  "map id_sys (take 2 (systems two_systems)) = [0, 1] \<and>
   map_sum id (\<lambda>s. (systemCount s, map id_sys (take 2 (systems s)))) (destroySystem two_systems 0)
     = Inr (1, [0, 0])"
  by code_simp

subsection \<open>Claims about the matcher\<close>

text \<open>
  C2. The claim: \<open>matchEntities\<close> invokes the callback for live entities only, also for the
  empty mask. The loop tests \<open>flags(data) & kEntityUnused\<close>, but no function sets that flag,
  and a free slot has the empty membership mask, which contains the empty mask. On a fresh
  registry, where no slot is live, \<open>matchEntities\<close> with mask 0 invokes the callback 128
  times, once for every slot, with the handles of generation 0.
\<close>

theorem matchEntities_visits_free_slots:
  "live_slots fresh = [] \<and>
   matchEntities recorder fresh 0 visit_fn 0 [] =
     Inr (fresh, map (\<lambda>i. createHandle (of_nat i) 0) [0..<ECS_MAX_ENTITIES])"
  using match_recorder [of fresh 0 0 "[]"] flags_clear_newECS [of blank_systems]
  by (simp add: live_slots_fresh matching_fresh handles_fresh fresh_def [symmetric])

text \<open>
  C9. In every registry that a sequence of API calls leads to from \<open>newECS\<close>, whatever the
  block \<open>malloc\<close> returned held, the flags field of every slot is zero and the test for
  \<open>kEntityUnused\<close> is false for it. So \<open>matchEntities\<close> skips a slot by its membership mask
  alone: the handles it passes to the callback are those of all slots whose mask contains
  the requested one, in ascending order.
\<close>

theorem flags_never_set:
  assumes "api code (newECS junk) s"
  shows "(\<forall>d \<in> set (data (entities s)). flags d = 0 \<and> flags d AND kEntityUnused = 0) \<and>
         matchEntities recorder s m visit_fn ud seen =
           Inr (s, seen @ map (handle_of_slot s) (matching_slots s m))"
proof -
  have fc: "flags_clear s" using api_flags_clear [OF assms] flags_clear_newECS by blast
  then have "\<forall>d \<in> set (data (entities s)). flags d = 0 \<and> flags d AND kEntityUnused = 0"
    by (simp add: flags_clear_def)
  then show ?thesis using match_recorder [OF fc] by blast
qed

text \<open>The registry in which the first entity was created and destroyed, after a pass of
  the matcher with the recording callback.\<close>

theorem flags_never_set_witness:
  "flags (data (entities one_destroyed) ! 0) = 0 \<and>
   matchEntities recorder one_destroyed 0 visit_fn 0 [] =
     Inr (one_destroyed, map (handle_of_slot one_destroyed) (matching_slots one_destroyed 0))"
proof -
  have cb: "\<forall>f g a e u v a' v'. recorder f = Some g \<longrightarrow> g a e u v = Inr (a', v') \<longrightarrow>
      api recorder a a'"
    by (auto simp: recorder_def record_visit_def intro: api_refl split: if_splits)
  have p1: "api recorder fresh one_entity"
    by (rule api_newEntity [OF api_refl newEntity_fresh])
  have p2: "api recorder fresh one_destroyed"
    by (rule api_destroyEntity [OF p1 destroyEntity_one_entity])
  have fc: "flags_clear one_destroyed"
    using api_flags_clear [OF p2] flags_clear_newECS [of blank_systems]
    by (simp add: fresh_def)
  have m: "matchEntities recorder one_destroyed 0 visit_fn 0 [] =
     Inr (one_destroyed, [] @ map (handle_of_slot one_destroyed) (matching_slots one_destroyed 0))"
    by (rule match_recorder [OF fc])
  have p3: "api recorder (newECS blank_systems) one_destroyed"
    using api_matchEntities [OF p2 cb m] by (simp add: fresh_def)
  have "data (entities one_destroyed) ! 0 \<in> set (data (entities one_destroyed))"
    using fc by (simp add: flags_clear_def ECS_MAX_ENTITIES_def)
  with flags_never_set [OF p3, of 0 0 "[]"] show ?thesis by simp
qed

end
